theory Spec2Isabelle
  imports Main
begin

section \<open>Data model of the subprocess environment manager\<close>

text \<open>
  A shallow embedding of \<^verbatim>\<open>mlagents/envs/subprocess_env_manager.py\<close> and of the
  training loop of \<^verbatim>\<open>mlagents/trainers/trainer_controller.py\<close>.
  Every exception of the Python code is a value of \<open>error\<close>; a call that raises
  returns \<open>Inl\<close>.
\<close>

datatype error = KeyError | IndexError | KeyboardInterrupt | ZeroDivisionError | UnityError

text \<open>
  \<^verbatim>\<open>AgentInfo\<close> is imported from \<^verbatim>\<open>mlagents.envs\<close>; the manager reads its
  \<^verbatim>\<open>id\<close> and \<^verbatim>\<open>brain_name\<close> only, the rest of the observation is opaque data.
\<close>

record AgentInfo =
  info_id :: string
  brain_name :: string
  observation :: int

text \<open>
  The nested, duck-typed \<^verbatim>\<open>outputs\<close> of a policy: a dict, a value with a length
  (indexed per agent), or anything else.
\<close>

datatype output_val =
    OutDict "(string \<times> output_val) list"
  | OutSeq "output_val list"
  | OutLeaf int

text \<open>
  \<^verbatim>\<open>ActionInfo\<close> as a policy returns it for one brain: one row per agent.
\<close>

record ActionInfo =
  action :: "int list list"
  memory :: "int list list option"
  text_action :: "string option"
  value_estimate :: "int list option"
  outputs :: "(string \<times> output_val) list"

text \<open>
  The \<^verbatim>\<open>ActionInfo\<close> that \<^verbatim>\<open>_take_step\<close> builds for one agent: the entries at the
  agent's index.
\<close>

record AgentActionInfo =
  agent_action :: "int list"
  agent_memory :: "int list option"
  agent_text :: "string option"
  agent_value :: "int option"
  agent_outputs :: "(string \<times> output_val) list"

text \<open>
  Modelled from the spec: \<^verbatim>\<open>AgentStep\<close> is declared in \<^verbatim>\<open>mlagents/envs/env_manager.py\<close>,
  which is not among the sources. It is the spec's StepRecord
  \<open>{previous_observation, current_observation, previous_action}\<close>; the manager builds it
  positionally and reads \<^verbatim>\<open>current_agent_info\<close>.
\<close>

record AgentStep =
  previous_agent_info :: "AgentInfo option"
  current_agent_info :: AgentInfo
  previous_action :: "AgentActionInfo option"

datatype EnvironmentCommand =
    StepCmd "(string \<times> ActionInfo) list"
  | ResetCmd int bool int
  | ExternalBrainsCmd
  | ResetParametersCmd
  | GlobalDoneCmd
  | CloseCmd

text \<open>
  A \<^verbatim>\<open>StepResponse\<close> inside its \<^verbatim>\<open>EnvironmentResponse("step", worker_id, payload)\<close>
  envelope, as a worker puts it on the shared step queue. The timer tree is only merged
  into the caller's timers and is left out.
\<close>

record EnvironmentResponse =
  resp_worker_id :: nat
  all_agent_info :: "AgentInfo list"

text \<open>
  \<^verbatim>\<open>UnityEnvWorker\<close>: \<open>conn\<close> holds the commands sent to the worker process that it
  has not finished handling, oldest first. A command whose handling ends the worker
  without an answer stays there.
\<close>

record UnityEnvWorker =
  worker_id :: nat
  conn :: "EnvironmentCommand list"
  previous_agent_steps :: "(string \<times> AgentStep) list"
  waiting :: bool

type_synonym policy = "AgentInfo list \<Rightarrow> ActionInfo"

record SubprocessEnvManager =
  env_workers :: "UnityEnvWorker list"
  previous_agent_action_infos :: "string \<rightharpoonup> AgentActionInfo"
  policies :: "string \<rightharpoonup> policy"

subsection \<open>Python dicts that are iterated: insertion-ordered association lists\<close>

fun dict_set :: "('k \<times> 'v) list \<Rightarrow> 'k \<Rightarrow> 'v \<Rightarrow> ('k \<times> 'v) list" where
  "dict_set [] k v = [(k, v)]"
| "dict_set ((k', v') # kvs) k v =
     (if k' = k then (k, v) # kvs else (k', v') # dict_set kvs k v)"

fun dict_get :: "('k \<times> 'v) list \<Rightarrow> 'k \<Rightarrow> error + 'v" where
  "dict_get [] k = Inl KeyError"
| "dict_get ((k', v') # kvs) k = (if k' = k then Inr v' else dict_get kvs k)"

subsection \<open>\<^verbatim>\<open>get_per_agent_outputs\<close>\<close>

fun slice_output :: "output_val \<Rightarrow> nat \<Rightarrow> error + output_val"
  and get_per_agent_outputs :: "(string \<times> output_val) list \<Rightarrow> nat \<Rightarrow> error + (string \<times> output_val) list"
where
  "slice_output (OutDict d) agent_idx =
     (case get_per_agent_outputs d agent_idx of
        Inl e \<Rightarrow> Inl e
      | Inr d' \<Rightarrow> Inr (OutDict d'))"
| "slice_output (OutSeq xs) agent_idx =
     (if agent_idx < length xs then Inr (xs ! agent_idx) else Inl IndexError)"
| "slice_output (OutLeaf x) agent_idx = Inr (OutLeaf x)"
| "get_per_agent_outputs [] agent_idx = Inr []"
| "get_per_agent_outputs ((output_key, output_val) # rest) agent_idx =
     (case slice_output output_val agent_idx of
        Inl e \<Rightarrow> Inl e
      | Inr v \<Rightarrow>
         (case get_per_agent_outputs rest agent_idx of
            Inl e \<Rightarrow> Inl e
          | Inr rest' \<Rightarrow> Inr ((output_key, v) # rest')))"

subsection \<open>\<^verbatim>\<open>SubprocessEnvManager._take_step\<close>\<close>

text \<open>The first loop: group the stored steps by brain name, in dict order.\<close>

fun group_by_brain ::
  "(string \<times> AgentStep) list \<Rightarrow> (string \<times> AgentStep list) list \<Rightarrow> (string \<times> AgentStep list) list"
where
  "group_by_brain [] by_brain = by_brain"
| "group_by_brain ((agent_id, agent_step) # rest) by_brain =
     (let bn = brain_name (current_agent_info agent_step) in
      group_by_brain rest
        (case dict_get by_brain bn of
           Inr steps \<Rightarrow> dict_set by_brain bn (steps @ [agent_step])
         | Inl _ \<Rightarrow> dict_set by_brain bn [agent_step]))"

text \<open>The per-agent \<^verbatim>\<open>ActionInfo\<close> at index \<open>agent_idx\<close> of a brain's batch.\<close>

definition agent_slice :: "ActionInfo \<Rightarrow> nat \<Rightarrow> error + AgentActionInfo" where
  "agent_slice action_info agent_idx =
     (case get_per_agent_outputs (outputs action_info) agent_idx of
        Inl e \<Rightarrow> Inl e
      | Inr outputs_for_agent \<Rightarrow>
         if \<not> agent_idx < length (action action_info) then Inl IndexError
         else if (case memory action_info of Some ms \<Rightarrow> \<not> agent_idx < length ms | None \<Rightarrow> False)
           then Inl IndexError
         else if (case value_estimate action_info of Some vs \<Rightarrow> \<not> agent_idx < length vs | None \<Rightarrow> False)
           then Inl IndexError
         else Inr \<lparr> agent_action = action action_info ! agent_idx,
                    agent_memory = map_option (\<lambda>ms. ms ! agent_idx) (memory action_info),
                    agent_text = None,
                    agent_value = map_option (\<lambda>vs. vs ! agent_idx) (value_estimate action_info),
                    agent_outputs = outputs_for_agent \<rparr>)"

text \<open>The inner loop over \<^verbatim>\<open>enumerate(agent_infos)\<close>, from index \<open>agent_idx\<close> on.\<close>

fun record_actions ::
  "ActionInfo \<Rightarrow> nat \<Rightarrow> AgentInfo list \<Rightarrow> (string \<rightharpoonup> AgentActionInfo)
     \<Rightarrow> error + (string \<rightharpoonup> AgentActionInfo)"
where
  "record_actions action_info agent_idx [] acts = Inr acts"
| "record_actions action_info agent_idx (agent_info # rest) acts =
     (case agent_slice action_info agent_idx of
        Inl e \<Rightarrow> Inl e
      | Inr a \<Rightarrow> record_actions action_info (Suc agent_idx) rest (acts(info_id agent_info \<mapsto> a)))"

text \<open>The second loop, over the brains.\<close>

fun take_step_brains ::
  "(string \<rightharpoonup> policy) \<Rightarrow> (string \<times> AgentStep list) list \<Rightarrow> (string \<times> ActionInfo) list
     \<Rightarrow> (string \<rightharpoonup> AgentActionInfo)
     \<Rightarrow> error + ((string \<times> ActionInfo) list \<times> (string \<rightharpoonup> AgentActionInfo))"
where
  "take_step_brains pols [] all_action_info acts = Inr (all_action_info, acts)"
| "take_step_brains pols ((bn, agent_steps) # rest) all_action_info acts =
     (let agent_infos = map current_agent_info agent_steps in
      case pols bn of
        None \<Rightarrow> Inl KeyError
      | Some get_action \<Rightarrow>
         (let action_info = get_action agent_infos in
          case record_actions action_info 0 agent_infos acts of
            Inl e \<Rightarrow> Inl e
          | Inr acts' \<Rightarrow>
              take_step_brains pols rest (dict_set all_action_info bn action_info) acts'))"

definition take_step ::
  "SubprocessEnvManager \<Rightarrow> (string \<times> AgentStep) list
     \<Rightarrow> error + ((string \<times> ActionInfo) list \<times> SubprocessEnvManager)"
where
  "take_step m previous_steps =
     (case take_step_brains (policies m) (group_by_brain previous_steps []) []
             (previous_agent_action_infos m) of
        Inl e \<Rightarrow> Inl e
      | Inr (all_action_info, acts) \<Rightarrow>
          Inr (all_action_info, m\<lparr>previous_agent_action_infos := acts\<rparr>))"

subsection \<open>\<^verbatim>\<open>SubprocessEnvManager._queue_steps\<close>\<close>

text \<open>
  The loop over \<^verbatim>\<open>self.env_workers\<close>, by worker index. \<^verbatim>\<open>send\<close> appends the
  command to the worker's connection.
\<close>

fun queue_steps_loop :: "nat list \<Rightarrow> SubprocessEnvManager \<Rightarrow> error + SubprocessEnvManager" where
  "queue_steps_loop [] m = Inr m"
| "queue_steps_loop (i # rest) m =
     (let env_worker = env_workers m ! i in
      if \<not> waiting env_worker then
        (case take_step m (previous_agent_steps env_worker) of
           Inl e \<Rightarrow> Inl e
         | Inr (env_action_info, m') \<Rightarrow>
             queue_steps_loop rest
               (m'\<lparr>env_workers := (env_workers m')[i :=
                     env_worker\<lparr>conn := conn env_worker @ [StepCmd env_action_info],
                                waiting := True\<rparr>]\<rparr>))
      else queue_steps_loop rest m)"

definition queue_steps :: "SubprocessEnvManager \<Rightarrow> error + SubprocessEnvManager" where
  "queue_steps m = queue_steps_loop [0..<length (env_workers m)] m"

subsection \<open>\<^verbatim>\<open>SubprocessEnvManager.step\<close>: polling the step queue\<close>

text \<open>
  The step queue is filled by the worker processes. A call of \<^verbatim>\<open>get_nowait\<close> either
  returns a response or raises \<^verbatim>\<open>Empty\<close>: the list of events gives the outcome of each
  call in turn, \<open>None\<close> for \<^verbatim>\<open>Empty\<close>. A loop that is still polling when the events
  are used up has not returned: the result is \<open>None\<close>.
\<close>

type_synonym events = "EnvironmentResponse option list"

definition clear_waiting :: "SubprocessEnvManager \<Rightarrow> nat \<Rightarrow> SubprocessEnvManager" where
  "clear_waiting m wid =
     m\<lparr>env_workers := (env_workers m)[wid := (env_workers m ! wid)\<lparr>waiting := False\<rparr>]\<rparr>"

fun poll_steps ::
  "SubprocessEnvManager \<Rightarrow> EnvironmentResponse list \<Rightarrow> nat set \<Rightarrow> events
     \<Rightarrow> (error + (SubprocessEnvManager \<times> EnvironmentResponse list \<times> events)) option"
where
  "poll_steps m worker_steps step_workers [] = None"
| "poll_steps m worker_steps step_workers (None # evs) =
     (if length worker_steps < 1 then poll_steps m worker_steps step_workers evs
      else Some (Inr (m, worker_steps, evs)))"
| "poll_steps m worker_steps step_workers (Some resp # evs) =
     (if \<not> resp_worker_id resp < length (env_workers m) then Some (Inl IndexError)
      else if resp_worker_id resp \<notin> step_workers then
        poll_steps (clear_waiting m (resp_worker_id resp)) (worker_steps @ [resp])
          (insert (resp_worker_id resp) step_workers) evs
      else poll_steps (clear_waiting m (resp_worker_id resp)) worker_steps step_workers evs)"

subsection \<open>\<^verbatim>\<open>SubprocessEnvManager._postprocess_steps\<close>\<close>

text \<open>The inner loop over \<^verbatim>\<open>payload.all_agent_info\<close> for one worker.\<close>

fun postprocess_agents ::
  "UnityEnvWorker \<Rightarrow> (string \<rightharpoonup> AgentActionInfo) \<Rightarrow> AgentInfo list \<Rightarrow> AgentStep list
     \<Rightarrow> error + (UnityEnvWorker \<times> AgentStep list)"
where
  "postprocess_agents env_worker acts [] agent_steps = Inr (env_worker, agent_steps)"
| "postprocess_agents env_worker acts (agent_info # rest) agent_steps =
     (case dict_get (previous_agent_steps env_worker) (info_id agent_info) of
        Inl e \<Rightarrow> Inl e
      | Inr prev \<Rightarrow>
         (let new_step = \<lparr> previous_agent_info = Some (current_agent_info prev),
                           current_agent_info = agent_info,
                           previous_action = acts (info_id agent_info) \<rparr>
          in postprocess_agents
               (env_worker\<lparr>previous_agent_steps :=
                  dict_set (previous_agent_steps env_worker) (info_id agent_info) new_step\<rparr>)
               acts rest (agent_steps @ [new_step])))"

fun postprocess_loop ::
  "SubprocessEnvManager \<Rightarrow> EnvironmentResponse list \<Rightarrow> AgentStep list
     \<Rightarrow> error + (AgentStep list \<times> SubprocessEnvManager)"
where
  "postprocess_loop m [] agent_steps = Inr (agent_steps, m)"
| "postprocess_loop m (resp # rest) agent_steps =
     (if \<not> resp_worker_id resp < length (env_workers m) then Inl IndexError
      else
        (case postprocess_agents (env_workers m ! resp_worker_id resp)
                (previous_agent_action_infos m) (all_agent_info resp) agent_steps of
           Inl e \<Rightarrow> Inl e
         | Inr (env_worker, agent_steps') \<Rightarrow>
             postprocess_loop
               (m\<lparr>env_workers := (env_workers m)[resp_worker_id resp := env_worker]\<rparr>)
               rest agent_steps'))"

definition postprocess_steps ::
  "SubprocessEnvManager \<Rightarrow> EnvironmentResponse list \<Rightarrow> error + (AgentStep list \<times> SubprocessEnvManager)"
where
  "postprocess_steps m env_steps = postprocess_loop m env_steps []"

text \<open>
  \<^verbatim>\<open>step\<close> returns the new agent steps, the manager and the events it has not read.
\<close>

definition step ::
  "SubprocessEnvManager \<Rightarrow> events
     \<Rightarrow> (error + (AgentStep list \<times> SubprocessEnvManager \<times> events)) option"
where
  "step m evs =
     (case queue_steps m of
        Inl e \<Rightarrow> Some (Inl e)
      | Inr m1 \<Rightarrow>
         (case poll_steps m1 [] {} evs of
            None \<Rightarrow> None
          | Some (Inl e) \<Rightarrow> Some (Inl e)
          | Some (Inr (m2, worker_steps, evs')) \<Rightarrow>
             (case postprocess_steps m2 worker_steps of
                Inl e \<Rightarrow> Some (Inl e)
              | Inr (agent_steps, m3) \<Rightarrow> Some (Inr (agent_steps, m3, evs')))))"

subsection \<open>\<^verbatim>\<open>SubprocessEnvManager.reset\<close>\<close>

text \<open>
  The first loop absorbs outstanding step results; an event \<open>None\<close> is a pass in which
  the queue was empty.
\<close>

fun reset_drain ::
  "SubprocessEnvManager \<Rightarrow> events \<Rightarrow> (error + (SubprocessEnvManager \<times> events)) option"
where
  "reset_drain m [] =
     (if list_ex waiting (env_workers m) then None else Some (Inr (m, [])))"
| "reset_drain m (None # evs) =
     (if list_ex waiting (env_workers m) then reset_drain m evs else Some (Inr (m, None # evs)))"
| "reset_drain m (Some resp # evs) =
     (if list_ex waiting (env_workers m) then
        (if \<not> resp_worker_id resp < length (env_workers m) then Some (Inl IndexError)
         else reset_drain (clear_waiting m (resp_worker_id resp)) evs)
      else Some (Inr (m, Some resp # evs)))"

text \<open>The loop over one worker's reply.\<close>

fun reset_agents ::
  "UnityEnvWorker \<Rightarrow> AgentInfo list \<Rightarrow> AgentStep list \<Rightarrow> UnityEnvWorker \<times> AgentStep list"
where
  "reset_agents ew [] reset_steps = (ew, reset_steps)"
| "reset_agents ew (agent_info # rest) reset_steps =
     (let reset_step = \<lparr> previous_agent_info = None,
                          current_agent_info = agent_info,
                          previous_action = None \<rparr>
      in reset_agents
           (ew\<lparr>previous_agent_steps :=
                 dict_set (previous_agent_steps ew) (info_id agent_info) reset_step\<rparr>)
           rest (reset_steps @ [reset_step]))"

text \<open>
  The loop that receives each worker's reply in turn: \<open>replies\<close> holds the payload that
  each worker's \<^verbatim>\<open>recv\<close> returns, in worker order. A worker with no reply blocks the
  call.
\<close>

fun reset_recv ::
  "UnityEnvWorker list \<Rightarrow> AgentInfo list list \<Rightarrow> AgentStep list
     \<Rightarrow> (UnityEnvWorker list \<times> AgentStep list) option"
where
  "reset_recv [] replies reset_steps = Some ([], reset_steps)"
| "reset_recv (ew # ews) [] reset_steps = None"
| "reset_recv (ew # ews) (all_agent_infos # replies) reset_steps =
     (case reset_agents ew all_agent_infos reset_steps of
        (ew', reset_steps') \<Rightarrow>
          (case reset_recv ews replies reset_steps' of
             None \<Rightarrow> None
           | Some (ews', reset_steps'') \<Rightarrow> Some (ew' # ews', reset_steps'')))"

definition reset_send :: "EnvironmentCommand \<Rightarrow> UnityEnvWorker list \<Rightarrow> UnityEnvWorker list" where
  "reset_send cmd ews = map (\<lambda>ew. ew\<lparr>conn := conn ew @ [cmd]\<rparr>) ews"

definition reset ::
  "SubprocessEnvManager \<Rightarrow> int \<Rightarrow> bool \<Rightarrow> int \<Rightarrow> events \<Rightarrow> AgentInfo list list
     \<Rightarrow> (error + (AgentStep list \<times> SubprocessEnvManager \<times> events)) option"
where
  "reset m config train_mode custom_reset_parameters evs replies =
     (case reset_drain m evs of
        None \<Rightarrow> None
      | Some (Inl e) \<Rightarrow> Some (Inl e)
      | Some (Inr (m1, evs')) \<Rightarrow>
         (case reset_recv
                 (reset_send (ResetCmd config train_mode custom_reset_parameters) (env_workers m1))
                 replies [] of
            None \<Rightarrow> None
          | Some (ews, reset_steps) \<Rightarrow>
              Some (Inr (reset_steps, m1\<lparr>env_workers := ews\<rparr>, evs'))))"

subsection \<open>Queries and \<^verbatim>\<open>close\<close>\<close>

text \<open>
  \<^verbatim>\<open>external_brains\<close> and \<^verbatim>\<open>reset_parameters\<close> send their command to worker 0 and
  return the payload of its reply, which is not modelled; \<^verbatim>\<open>close\<close> sends the close
  command to every worker.
\<close>

definition send_first :: "EnvironmentCommand \<Rightarrow> SubprocessEnvManager \<Rightarrow> error + SubprocessEnvManager" where
  "send_first cmd m =
     (case env_workers m of
        [] \<Rightarrow> Inl IndexError
      | ew # ews \<Rightarrow> Inr (m\<lparr>env_workers := ew\<lparr>conn := conn ew @ [cmd]\<rparr> # ews\<rparr>))"

definition external_brains :: "SubprocessEnvManager \<Rightarrow> error + SubprocessEnvManager" where
  "external_brains m = send_first ExternalBrainsCmd m"

definition reset_parameters :: "SubprocessEnvManager \<Rightarrow> error + SubprocessEnvManager" where
  "reset_parameters m = send_first ResetParametersCmd m"

definition close :: "SubprocessEnvManager \<Rightarrow> SubprocessEnvManager" where
  "close m = m\<lparr>env_workers := map (\<lambda>ew. ew\<lparr>conn := conn ew @ [CloseCmd]\<rparr>) (env_workers m)\<rparr>"

subsection \<open>The worker process\<close>

text \<open>
  \<^verbatim>\<open>UnityEnvironment\<close> is imported from \<^verbatim>\<open>mlagents.envs\<close>: the environment is a
  state of any type \<open>'e\<close>, and the members the worker uses are parameters. A call of the
  environment may raise: it then returns \<open>Inl\<close>.
\<close>

record 'e UnityEnvironment =
  global_done :: "'e \<Rightarrow> bool"
  env_reset :: "'e \<Rightarrow> error + (AgentInfo list \<times> 'e)"
  env_reset_with :: "int \<Rightarrow> bool \<Rightarrow> int \<Rightarrow> 'e \<Rightarrow> error + (AgentInfo list \<times> 'e)"
  env_step ::
    "(string \<times> int list list) list \<Rightarrow> (string \<times> int list list option) list
       \<Rightarrow> (string \<times> string option) list \<Rightarrow> (string \<times> int list option) list
       \<Rightarrow> 'e \<Rightarrow> error + (AgentInfo list \<times> 'e)"

text \<open>
  What the worker does with its result: put a step response on the shared queue, send a
  reply on its own connection, or leave its loop.
\<close>

datatype worker_output =
    PutStep EnvironmentResponse
  | SendReset "AgentInfo list"
  | SendGlobalDone bool
  | SendQuery
  | Break

text \<open>
  One pass of the \<^verbatim>\<open>while True\<close> loop of \<^verbatim>\<open>worker\<close>, for the command received. An
  exception of the environment is not caught in the loop: the result is \<open>Inl\<close>, the
  worker process ends, and nothing is put on the queue or sent.
\<close>

fun worker_command ::
  "'e UnityEnvironment \<Rightarrow> nat \<Rightarrow> 'e \<Rightarrow> EnvironmentCommand \<Rightarrow> error + ('e \<times> worker_output)"
where
  "worker_command env wid e (StepCmd all_action_info) =
     (case (if global_done env e then env_reset env e
            else env_step env
                   (map (\<lambda>(bn, action_info). (bn, action action_info)) all_action_info)
                   (map (\<lambda>(bn, action_info). (bn, memory action_info)) all_action_info)
                   (map (\<lambda>(bn, action_info). (bn, text_action action_info)) all_action_info)
                   (map (\<lambda>(bn, action_info). (bn, value_estimate action_info)) all_action_info)
                   e) of
        Inl x \<Rightarrow> Inl x
      | Inr (infos, e') \<Rightarrow> Inr (e', PutStep \<lparr> resp_worker_id = wid, all_agent_info = infos \<rparr>))"
| "worker_command env wid e ExternalBrainsCmd = Inr (e, SendQuery)"
| "worker_command env wid e ResetParametersCmd = Inr (e, SendQuery)"
| "worker_command env wid e (ResetCmd config train_mode custom) =
     (case env_reset_with env config train_mode custom e of
        Inl x \<Rightarrow> Inl x
      | Inr (infos, e') \<Rightarrow> Inr (e', SendReset infos))"
| "worker_command env wid e GlobalDoneCmd = Inr (e, SendGlobalDone (global_done env e))"
| "worker_command env wid e CloseCmd = Inr (e, Break)"

subsection \<open>The coordinator and its workers as one system\<close>

text \<open>
  The coordinator is single-threaded; the workers run beside it. A state of the whole
  system is the manager (with each worker's connection), the shared step queue and the
  environment of each worker process, \<open>None\<close> for a worker process that has ended.
\<close>

record 'e system =
  manager :: SubprocessEnvManager
  step_queue :: "EnvironmentResponse list"
  envs :: "'e option list"

text \<open>\<^verbatim>\<open>SubprocessEnvManager.__init__\<close> with \<open>n_env\<close> workers.\<close>

definition create_worker :: "nat \<Rightarrow> UnityEnvWorker" where
  "create_worker worker_idx =
     \<lparr> worker_id = worker_idx, conn = [], previous_agent_steps = [], waiting = False \<rparr>"

definition init_manager :: "nat \<Rightarrow> SubprocessEnvManager" where
  "init_manager n_env =
     \<lparr> env_workers = map create_worker [0..<n_env],
       previous_agent_action_infos = Map.empty,
       policies = Map.empty \<rparr>"

definition put_output :: "worker_output \<Rightarrow> EnvironmentResponse list \<Rightarrow> EnvironmentResponse list" where
  "put_output out q = (case out of PutStep r \<Rightarrow> q @ [r] | _ \<Rightarrow> q)"

text \<open>The responses among the events of the step queue.\<close>

fun arrived :: "events \<Rightarrow> EnvironmentResponse list" where
  "arrived [] = []"
| "arrived (None # evs) = arrived evs"
| "arrived (Some r # evs) = r # arrived evs"

text \<open>
  The moves of the system. The manager's moves are its operations, run on the results
  that are on the step queue when the move is made (a result that arrives while the
  manager polls is a result that a worker has put before the move):
  \<^item> \<^verbatim>\<open>step\<close> as a whole, and its phases for a call that is still under way:
    \<^verbatim>\<open>_queue_steps\<close> (left after the first \<open>k\<close> workers when a \<^verbatim>\<open>send\<close> raises; with
    \<open>k\<close> the number of workers it is the whole of \<^verbatim>\<open>_queue_steps\<close>), the polling loop,
    the post-processing, and one pass of the body of a polling loop;
  \<^item> \<^verbatim>\<open>reset\<close> as a whole, with any payloads as the replies it receives, and
    \<^verbatim>\<open>reset\<close> left by an exception of \<^verbatim>\<open>send\<close> or \<^verbatim>\<open>recv\<close>: after the drain, the
    reset command has been sent to the first \<open>k\<close> workers and the replies of the first
    \<open>j\<close> workers have been stored;
  \<^item> the queries, \<^verbatim>\<open>close\<close> and \<^verbatim>\<open>set_policy\<close>.
  Sending a step command and setting the worker's flag is one move of the
  single-threaded manager. A worker's moves: it handles the oldest command on its
  connection and answers it; the handling raises and the process ends with the command
  unanswered; or the process is interrupted and ends.
\<close>

inductive sys_move :: "'e UnityEnvironment \<Rightarrow> 'e system \<Rightarrow> 'e system \<Rightarrow> bool"
  for env :: "'e UnityEnvironment"
where
  move_step:
    "step (manager s) (map Some (step_queue s) @ [None]) = Some (Inr (agent_steps, m', rest)) \<Longrightarrow>
     sys_move env s (s\<lparr>manager := m', step_queue := arrived rest\<rparr>)"
| move_queue_steps:
    "k \<le> length (env_workers (manager s)) \<Longrightarrow>
     queue_steps_loop [0..<k] (manager s) = Inr m' \<Longrightarrow>
     sys_move env s (s\<lparr>manager := m'\<rparr>)"
| move_poll:
    "poll_steps (manager s) [] {} (map Some (step_queue s) @ [None])
       = Some (Inr (m', worker_steps, rest)) \<Longrightarrow>
     sys_move env s (s\<lparr>manager := m', step_queue := arrived rest\<rparr>)"
| move_get_nowait:
    "step_queue s = r # q \<Longrightarrow> resp_worker_id r < length (env_workers (manager s)) \<Longrightarrow>
     sys_move env s
       (s\<lparr>manager := clear_waiting (manager s) (resp_worker_id r), step_queue := q\<rparr>)"
| move_postprocess:
    "postprocess_steps (manager s) rs = Inr (agent_steps, m') \<Longrightarrow>
     sys_move env s (s\<lparr>manager := m'\<rparr>)"
| move_reset:
    "reset (manager s) config train_mode custom (map Some (step_queue s)) replies
       = Some (Inr (reset_steps, m', rest)) \<Longrightarrow>
     sys_move env s (s\<lparr>manager := m', step_queue := arrived rest\<rparr>)"
| move_reset_raises:
    "reset_drain (manager s) (map Some (step_queue s)) = Some (Inr (m1, rest)) \<Longrightarrow>
     k \<le> length (env_workers m1) \<Longrightarrow>
     sent = reset_send (ResetCmd config train_mode custom) (take k (env_workers m1))
              @ drop k (env_workers m1) \<Longrightarrow>
     j \<le> length sent \<Longrightarrow>
     reset_recv (take j sent) replies [] = Some (ews, reset_steps) \<Longrightarrow>
     sys_move env s (s\<lparr>manager := m1\<lparr>env_workers := ews @ drop j sent\<rparr>, step_queue := arrived rest\<rparr>)"
| move_external_brains:
    "external_brains (manager s) = Inr m' \<Longrightarrow> sys_move env s (s\<lparr>manager := m'\<rparr>)"
| move_reset_parameters:
    "reset_parameters (manager s) = Inr m' \<Longrightarrow> sys_move env s (s\<lparr>manager := m'\<rparr>)"
| move_close:
    "sys_move env s (s\<lparr>manager := close (manager s)\<rparr>)"
| move_set_policy:
    "sys_move env s (s\<lparr>manager := (manager s)\<lparr>policies := pols\<rparr>\<rparr>)"
| move_worker:
    "i < length (env_workers (manager s)) \<Longrightarrow> i < length (envs s) \<Longrightarrow>
     envs s ! i = Some e \<Longrightarrow>
     conn (env_workers (manager s) ! i) = cmd # cs \<Longrightarrow>
     worker_command env i e cmd = Inr (e', out) \<Longrightarrow>
     sys_move env s
       (s\<lparr>manager := (manager s)\<lparr>env_workers :=
              (env_workers (manager s))[i := (env_workers (manager s) ! i)\<lparr>conn := cs\<rparr>]\<rparr>,
          step_queue := put_output out (step_queue s),
          envs := (envs s)[i := (if out = Break then None else Some e')]\<rparr>)"
| move_worker_raises:
    "i < length (env_workers (manager s)) \<Longrightarrow> i < length (envs s) \<Longrightarrow>
     envs s ! i = Some e \<Longrightarrow>
     conn (env_workers (manager s) ! i) = cmd # cs \<Longrightarrow>
     worker_command env i e cmd = Inl x \<Longrightarrow>
     sys_move env s (s\<lparr>envs := (envs s)[i := None]\<rparr>)"
| move_worker_interrupted:
    "i < length (envs s) \<Longrightarrow> sys_move env s (s\<lparr>envs := (envs s)[i := None]\<rparr>)"

inductive reachable :: "'e UnityEnvironment \<Rightarrow> 'e system \<Rightarrow> bool"
  for env :: "'e UnityEnvironment"
where
  reachable_init:
    "length es = n_env \<Longrightarrow>
     reachable env \<lparr> manager = init_manager n_env, step_queue = [], envs = map Some es \<rparr>"
| reachable_move:
    "reachable env s \<Longrightarrow> sys_move env s s' \<Longrightarrow> reachable env s'"

text \<open>
  The step commands sent to worker \<open>i\<close> that the coordinator has not consumed: those on
  the worker's connection (not answered), and those whose result is on the step queue
  (not taken off it).
\<close>

fun is_step_cmd :: "EnvironmentCommand \<Rightarrow> bool" where
  "is_step_cmd (StepCmd a) = True"
| "is_step_cmd c = False"

definition steps_in_flight :: "'e system \<Rightarrow> nat \<Rightarrow> nat" where
  "steps_in_flight s i =
     length (filter is_step_cmd (conn (env_workers (manager s) ! i)))
     + length (filter (\<lambda>r. resp_worker_id r = i) (step_queue s))"

text \<open>
  The responses of a drain that \<^verbatim>\<open>step\<close> keeps: the first of each worker id, in
  the order of arrival.
\<close>

fun first_arrivals :: "EnvironmentResponse list \<Rightarrow> nat set \<Rightarrow> EnvironmentResponse list" where
  "first_arrivals [] seen = []"
| "first_arrivals (r # rs) seen =
     (if resp_worker_id r \<in> seen then first_arrivals rs seen
      else r # first_arrivals rs (insert (resp_worker_id r) seen))"

section \<open>The training loop of the trainer controller\<close>

text \<open>
  \<^verbatim>\<open>Trainer\<close>, \<^verbatim>\<open>EnvManager\<close> and \<^verbatim>\<open>MetaCurriculum\<close> are imported by
  \<^verbatim>\<open>trainer_controller.py\<close>: a trainer is a state of any type \<open>'t\<close>, an environment
  manager a state of type \<open>'env\<close>, a curriculum a state of type \<open>'mc\<close>, and the methods
  the controller calls are parameters. Wall-clock times and the files written are left
  out.
\<close>

record 't Trainer =
  add_experiences :: "AgentStep \<Rightarrow> 't \<Rightarrow> 't"
  process_experiences :: "AgentStep \<Rightarrow> 't \<Rightarrow> 't"
  get_step :: "'t \<Rightarrow> int"
  get_max_steps :: "'t \<Rightarrow> int"
  increment_step :: "nat \<Rightarrow> 't \<Rightarrow> 't"
  is_ready_update :: "'t \<Rightarrow> bool"
  update_policy :: "'t \<Rightarrow> 't"
  trainer_policy :: "'t \<Rightarrow> policy"
  end_episode :: "'t \<Rightarrow> 't"
  clear_reward_buffer :: "'t \<Rightarrow> 't"
  add_delta_step :: "'t \<Rightarrow> 't"
  save_model :: "'t \<Rightarrow> 't"
  write_summary :: "nat \<Rightarrow> 't \<Rightarrow> 't"

text \<open>
  \<open>em_step\<close> is \<^verbatim>\<open>env.step()\<close> followed by \<^verbatim>\<open>env.num_env_steps_returned\<close>. A call
  that raises (a broken channel surfaces as \<^verbatim>\<open>KeyboardInterrupt\<close>) returns \<open>Inl\<close>.
\<close>

record 'env EnvManager =
  em_step :: "'env \<Rightarrow> error + (AgentStep list \<times> nat \<times> 'env)"
  em_reset :: "bool \<Rightarrow> int option \<Rightarrow> 'env \<Rightarrow> error + (AgentStep list \<times> 'env)"
  em_set_policy :: "string \<Rightarrow> policy \<Rightarrow> 'env \<Rightarrow> 'env"

text \<open>
  \<open>increment_lessons\<close> is \<^verbatim>\<open>meta_curriculum.increment_lessons\<close> applied to the
  measure values and reward buffer sizes that the controller reads off its trainers.
\<close>

record ('t, 'mc) MetaCurriculum =
  increment_lessons :: "(string \<times> 't) list \<Rightarrow> 'mc \<Rightarrow> (string \<times> bool) list \<times> 'mc"
  get_config :: "'mc \<Rightarrow> int"

record ('t, 'mc) TrainerController =
  trainers :: "(string \<times> 't) list"
  trainer_metrics :: "string list"
  meta_curriculum :: "'mc option"
  train_model :: bool
  save_freq :: int
  fast_simulation :: bool

definition reset_env ::
  "'env EnvManager \<Rightarrow> ('t, 'mc) MetaCurriculum \<Rightarrow> ('t, 'mc) TrainerController \<Rightarrow> 'env
     \<Rightarrow> error + (AgentStep list \<times> 'env)"
where
  "reset_env E M c env =
     (case meta_curriculum c of
        Some mc \<Rightarrow> em_reset E (fast_simulation c) (Some (get_config M mc)) env
      | None \<Rightarrow> em_reset E (fast_simulation c) None env)"

text \<open>The modulo is evaluated first: a save frequency of 0 raises.\<close>

definition should_save_model :: "('t, 'mc) TrainerController \<Rightarrow> nat \<Rightarrow> error + bool" where
  "should_save_model c global_step =
     (if save_freq c = 0 then Inl ZeroDivisionError
      else Inr (int global_step mod save_freq c = 0 \<and> global_step \<noteq> 0 \<and> train_model c))"

definition not_done_training :: "'t Trainer \<Rightarrow> ('t, 'mc) TrainerController \<Rightarrow> bool" where
  "not_done_training T c =
     (list_ex (\<lambda>(k, t). get_step T t \<le> get_max_steps T t) (trainers c) \<or> \<not> train_model c)"

text \<open>
  The loop of \<^verbatim>\<open>advance\<close> that clears the reward buffer of each brain whose lesson
  changed.
\<close>

fun clear_changed ::
  "'t Trainer \<Rightarrow> (string \<times> bool) list \<Rightarrow> (string \<times> 't) list \<Rightarrow> error + (string \<times> 't) list"
where
  "clear_changed T [] trs = Inr trs"
| "clear_changed T ((bn, changed) # rest) trs =
     (if changed then
        (case dict_get trs bn of
           Inl e \<Rightarrow> Inl e
         | Inr t \<Rightarrow> clear_changed T rest (dict_set trs bn (clear_reward_buffer T t)))
      else clear_changed T rest trs)"

text \<open>The curriculum part of \<^verbatim>\<open>advance\<close>.\<close>

definition advance_curriculum ::
  "'t Trainer \<Rightarrow> 'env EnvManager \<Rightarrow> ('t, 'mc) MetaCurriculum \<Rightarrow> ('t, 'mc) TrainerController
     \<Rightarrow> 'env \<Rightarrow> error + (('t, 'mc) TrainerController \<times> 'env)"
where
  "advance_curriculum T E M c env =
     (case meta_curriculum c of
        None \<Rightarrow> Inr (c, env)
      | Some mc \<Rightarrow>
         (case increment_lessons M (trainers c) mc of
            (lessons_incremented, mc') \<Rightarrow>
              (let c1 = c\<lparr>meta_curriculum := Some mc'\<rparr> in
               if list_ex snd lessons_incremented then
                 (case reset_env E M c1 env of
                    Inl e \<Rightarrow> Inl e
                  | Inr (reset_steps, env') \<Rightarrow>
                     (case clear_changed T lessons_incremented
                             (map (\<lambda>(bn, t). (bn, end_episode T t)) (trainers c1)) of
                        Inl e \<Rightarrow> Inl e
                      | Inr trs \<Rightarrow> Inr (c1\<lparr>trainers := trs\<rparr>, env')))
               else Inr (c1, env))))"

text \<open>
  The loops of \<^verbatim>\<open>advance\<close> over the new agent steps: the inner loop hands one agent
  step to the trainers, the outer loop runs over the agent steps.
\<close>

definition give_experience :: "'t Trainer \<Rightarrow> AgentStep \<Rightarrow> (string \<times> 't) list \<Rightarrow> (string \<times> 't) list" where
  "give_experience T agent_step trs =
     map (\<lambda>(bn, t). (bn, process_experiences T agent_step (add_experiences T agent_step t))) trs"

fun give_experiences :: "'t Trainer \<Rightarrow> AgentStep list \<Rightarrow> (string \<times> 't) list \<Rightarrow> (string \<times> 't) list" where
  "give_experiences T [] trs = trs"
| "give_experiences T (agent_step # rest) trs =
     give_experiences T rest (give_experience T agent_step trs)"

text \<open>The last loop of \<^verbatim>\<open>advance\<close>, over the trainers.\<close>

fun update_trainers ::
  "'t Trainer \<Rightarrow> 'env EnvManager \<Rightarrow> ('t, 'mc) TrainerController \<Rightarrow> nat \<Rightarrow> (string \<times> 't) list
     \<Rightarrow> 'env \<Rightarrow> (string \<times> 't) list \<times> 'env"
where
  "update_trainers T E c new_env_steps [] env = ([], env)"
| "update_trainers T E c new_env_steps ((bn, t) # rest) env =
     (let t1 = (if bn \<in> set (trainer_metrics c) then add_delta_step T t else t) in
      if train_model c \<and> get_step T t1 \<le> get_max_steps T t1 then
        (let t2 = increment_step T new_env_steps t1 in
         if is_ready_update T t2 then
           (let t3 = update_policy T t2 in
            case update_trainers T E c new_env_steps rest
                   (em_set_policy E bn (trainer_policy T t3) env) of
              (rest', env') \<Rightarrow> ((bn, t3) # rest', env'))
         else
           (case update_trainers T E c new_env_steps rest env of
              (rest', env') \<Rightarrow> ((bn, t2) # rest', env')))
      else
        (case update_trainers T E c new_env_steps rest env of
           (rest', env') \<Rightarrow> ((bn, t1) # rest', env')))"

definition advance ::
  "'t Trainer \<Rightarrow> 'env EnvManager \<Rightarrow> ('t, 'mc) MetaCurriculum \<Rightarrow> ('t, 'mc) TrainerController
     \<Rightarrow> 'env \<Rightarrow> error + (nat \<times> ('t, 'mc) TrainerController \<times> 'env)"
where
  "advance T E M c env =
     (case advance_curriculum T E M c env of
        Inl e \<Rightarrow> Inl e
      | Inr (c1, env1) \<Rightarrow>
         (case em_step E env1 of
            Inl e \<Rightarrow> Inl e
          | Inr (new_agent_steps, new_env_steps, env2) \<Rightarrow>
             (case update_trainers T E c1 new_env_steps
                     (give_experiences T new_agent_steps (trainers c1)) env2 of
                (trs, env3) \<Rightarrow> Inr (new_env_steps, c1\<lparr>trainers := trs\<rparr>, env3))))"

text \<open>
  The \<^verbatim>\<open>for i in range(n_steps)\<close> loop of \<^verbatim>\<open>start_learning\<close>: count the global step,
  save the models when due, write the summaries.
\<close>

fun count_steps :: "'t Trainer \<Rightarrow> ('t, 'mc) TrainerController \<Rightarrow> nat \<Rightarrow> nat \<Rightarrow> (string \<times> 't) list
     \<Rightarrow> error + (nat \<times> (string \<times> 't) list)"
where
  "count_steps T c 0 global_step trs = Inr (global_step, trs)"
| "count_steps T c (Suc n) global_step trs =
     (case should_save_model c (global_step + 1) of
        Inl e \<Rightarrow> Inl e
      | Inr save \<Rightarrow>
          count_steps T c n (global_step + 1)
            (map (\<lambda>(bn, t). (bn, write_summary T (global_step + 1) t))
               (if save then map (\<lambda>(bn, t). (bn, save_model T t)) trs else trs)))"

text \<open>
  The \<^verbatim>\<open>while self._not_done_training()\<close> loop of \<^verbatim>\<open>start_learning\<close>. The loop has no
  bound: \<open>fuel\<close> counts the passes allowed, and \<open>None\<close> is a loop that is still running
  when they are used up. An exception leaves the loop with \<open>Inl\<close>.
\<close>

fun training_loop ::
  "'t Trainer \<Rightarrow> 'env EnvManager \<Rightarrow> ('t, 'mc) MetaCurriculum \<Rightarrow> nat
     \<Rightarrow> ('t, 'mc) TrainerController \<Rightarrow> 'env \<Rightarrow> nat
     \<Rightarrow> (error + (('t, 'mc) TrainerController \<times> 'env \<times> nat)) option"
where
  "training_loop T E M 0 c env global_step =
     (if not_done_training T c then None else Some (Inr (c, env, global_step)))"
| "training_loop T E M (Suc fuel) c env global_step =
     (if not_done_training T c then
        (case advance T E M c env of
           Inl e \<Rightarrow> Some (Inl e)
         | Inr (n_steps, c1, env1) \<Rightarrow>
            (case count_steps T c1 n_steps global_step (trainers c1) of
               Inl e \<Rightarrow> Some (Inl e)
             | Inr (g, trs) \<Rightarrow> training_loop T E M fuel (c1\<lparr>trainers := trs\<rparr>) env1 g))
      else Some (Inr (c, env, global_step)))"

section \<open>Auxiliary notions for the statements\<close>

text \<open>The agent ids that have a stored step in a worker's history.\<close>

definition keys_of :: "UnityEnvWorker \<Rightarrow> string set" where
  "keys_of w = fst ` set (previous_agent_steps w)"

text \<open>
  What \<^verbatim>\<open>_queue_steps\<close> over the worker indices \<open>idxs\<close> does to the workers: a step
  command is appended for exactly the indexed workers that were not waiting, and those
  workers wait.
\<close>

definition dispatched :: "nat list \<Rightarrow> UnityEnvWorker list \<Rightarrow> UnityEnvWorker list \<Rightarrow> bool" where
  "dispatched idxs ws ws' \<longleftrightarrow>
     length ws' = length ws \<and>
     (\<forall>j<length ws.
        previous_agent_steps (ws' ! j) = previous_agent_steps (ws ! j) \<and>
        worker_id (ws' ! j) = worker_id (ws ! j) \<and>
        waiting (ws' ! j) = (waiting (ws ! j) \<or> j \<in> set idxs) \<and>
        (\<exists>a. conn (ws' ! j) =
               conn (ws ! j) @ (if j \<in> set idxs \<and> \<not> waiting (ws ! j) then [StepCmd a] else [])))"

text \<open>What post-processing leaves alone.\<close>

definition same_control :: "SubprocessEnvManager \<Rightarrow> SubprocessEnvManager \<Rightarrow> bool" where
  "same_control m m' \<longleftrightarrow>
     map keys_of (env_workers m') = map keys_of (env_workers m) \<and>
     map waiting (env_workers m') = map waiting (env_workers m) \<and>
     map conn (env_workers m') = map conn (env_workers m) \<and>
     map worker_id (env_workers m') = map worker_id (env_workers m) \<and>
     previous_agent_action_infos m' = previous_agent_action_infos m \<and>
     policies m' = policies m"

subsection \<open>A scenario: two workers with one agent each\<close>

definition ex_agent :: "string \<Rightarrow> int \<Rightarrow> AgentInfo" where
  "ex_agent name obs = \<lparr> info_id = name, brain_name = ''brain'', observation = obs \<rparr>"

text \<open>A policy whose action for an agent is the agent's observation.\<close>

definition ex_policy :: policy where
  "ex_policy agent_infos =
     \<lparr> action = map (\<lambda>a. [observation a]) agent_infos, memory = None, text_action = None,
       value_estimate = None, outputs = [] \<rparr>"

definition ex_manager :: SubprocessEnvManager where
  "ex_manager = (init_manager 2)\<lparr>policies := [''brain'' \<mapsto> ex_policy]\<rparr>"

text \<open>The manager after a reset in which the workers report one agent each.\<close>

definition ex_after_reset :: SubprocessEnvManager where
  "ex_after_reset =
     (case reset ex_manager 0 True 0 [] [[ex_agent ''w0_agent'' 10], [ex_agent ''w1_agent'' 20]] of
        Some (Inr (reset_steps, m, evs)) \<Rightarrow> m
      | _ \<Rightarrow> ex_manager)"

definition ex_resp :: "nat \<Rightarrow> string \<Rightarrow> int \<Rightarrow> EnvironmentResponse" where
  "ex_resp wid name obs = \<lparr> resp_worker_id = wid, all_agent_info = [ex_agent name obs] \<rparr>"

subsection \<open>A scenario: an environment that is done\<close>

text \<open>
  An environment whose state is its global-done flag and a step counter, with one agent
  of worker 0: a reset observes 0, a step observes the counter.
\<close>

definition ex_env :: "(bool \<times> int) UnityEnvironment" where
  "ex_env =
     \<lparr> global_done = fst,
       env_reset = (\<lambda>e. Inr ([ex_agent ''w0_agent'' 0], (False, 0))),
       env_reset_with = (\<lambda>config train_mode custom e. Inr ([ex_agent ''w0_agent'' 0], (False, 0))),
       env_step = (\<lambda>actions memories texts vals e.
                     Inr ([ex_agent ''w0_agent'' (snd e + 1)], (fst e, snd e + 1))) \<rparr>"

subsection \<open>A scenario: two workers whose agents have the same id\<close>

definition ex_collide :: SubprocessEnvManager where
  "ex_collide =
     (case reset ex_manager 0 True 0 [] [[ex_agent ''agent'' 10], [ex_agent ''agent'' 20]] of
        Some (Inr (reset_steps, m, evs)) \<Rightarrow> m
      | _ \<Rightarrow> ex_manager)"

subsection \<open>A scenario: two brains, one agent\<close>

text \<open>
  A trainer whose state is the list of the experiences it was given and its step
  counter; its step budget is 3 and it never updates its policy.
\<close>

definition ex_trainer :: "(AgentStep list \<times> int) Trainer" where
  "ex_trainer =
     \<lparr> add_experiences = (\<lambda>agent_step t. (fst t @ [agent_step], snd t)),
       process_experiences = (\<lambda>agent_step t. t),
       get_step = snd,
       get_max_steps = (\<lambda>t. 3),
       increment_step = (\<lambda>n t. (fst t, snd t + int n)),
       is_ready_update = (\<lambda>t. False),
       update_policy = (\<lambda>t. t),
       trainer_policy = (\<lambda>t. ex_policy),
       end_episode = (\<lambda>t. t),
       clear_reward_buffer = (\<lambda>t. t),
       add_delta_step = (\<lambda>t. t),
       save_model = (\<lambda>t. t),
       write_summary = (\<lambda>global_step t. t) \<rparr>"

text \<open>An agent step of an agent of brain \<open>A\<close>.\<close>

definition ex_agent_step :: AgentStep where
  "ex_agent_step =
     \<lparr> previous_agent_info = None,
       current_agent_info = \<lparr> info_id = ''a1'', brain_name = ''A'', observation = 1 \<rparr>,
       previous_action = None \<rparr>"

text \<open>An environment manager whose every step returns that agent step and counts one
  environment step.\<close>

definition ex_env_manager :: "unit EnvManager" where
  "ex_env_manager =
     \<lparr> em_step = (\<lambda>env. Inr ([ex_agent_step], 1, env)),
       em_reset = (\<lambda>train_mode config env. Inr ([], env)),
       em_set_policy = (\<lambda>bn p env. env) \<rparr>"

definition ex_curriculum :: "(AgentStep list \<times> int, unit) MetaCurriculum" where
  "ex_curriculum = \<lparr> increment_lessons = (\<lambda>trs mc. ([], mc)), get_config = (\<lambda>mc. 0) \<rparr>"

text \<open>A controller with the brains \<open>A\<close> and \<open>B\<close>, whose trainers are at step \<open>n\<close>.\<close>

definition ex_controller :: "bool \<Rightarrow> int \<Rightarrow> (AgentStep list \<times> int, unit) TrainerController" where
  "ex_controller train n =
     \<lparr> trainers = [(''A'', ([], n)), (''B'', ([], n))],
       trainer_metrics = [],
       meta_curriculum = None,
       train_model = train,
       save_freq = 2,
       fast_simulation = True \<rparr>"

subsection \<open>A scenario: a run of the system\<close>

text \<open>
  Two workers; both are sent a step command; worker 0 handles its command; the manager
  polls the step queue.
\<close>

definition ex_sys0 :: "(bool \<times> int) system" where
  "ex_sys0 =
     \<lparr> manager = init_manager 2, step_queue = [], envs = map Some [(False, 0), (False, 0)] \<rparr>"

definition ex_sys1 :: "(bool \<times> int) system" where
  "ex_sys1 = ex_sys0\<lparr>manager := projr (queue_steps (manager ex_sys0))\<rparr>"

definition ex_sys2 :: "(bool \<times> int) system" where
  "ex_sys2 =
     (let w = env_workers (manager ex_sys1) ! 0;
          res = projr (worker_command ex_env 0 (False, 0) (hd (conn w)))
      in ex_sys1\<lparr>manager := (manager ex_sys1)\<lparr>env_workers :=
                     (env_workers (manager ex_sys1))[0 := w\<lparr>conn := tl (conn w)\<rparr>]\<rparr>,
                  step_queue := put_output (snd res) (step_queue ex_sys1),
                  envs := (envs ex_sys1)[0 := (if snd res = Break then None else Some (fst res))]\<rparr>)"

definition ex_sys3 :: "(bool \<times> int) system" where
  "ex_sys3 =
     (let res = projr (the (poll_steps (manager ex_sys2) [] {} (map Some (step_queue ex_sys2) @ [None])))
      in ex_sys2\<lparr>manager := fst res, step_queue := arrived (snd (snd res))\<rparr>)"

subsection \<open>Notions for the statements about stored history and the system\<close>

text \<open>
  The previous observation that a worker's stored history gives for the \<open>j\<close>-th
  observation of a batch: the latest earlier observation of the same agent id in the
  batch if there is one, else the current observation of the step stored for the agent
  id.
\<close>

definition stored_previous :: "(string \<times> AgentStep) list \<Rightarrow> AgentInfo list \<Rightarrow> nat \<Rightarrow> AgentInfo option" where
  "stored_previous history infos j =
     (case find (\<lambda>x. info_id x = info_id (infos ! j)) (rev (take j infos)) of
        Some x \<Rightarrow> Some x
      | None \<Rightarrow>
         (case dict_get history (info_id (infos ! j)) of
            Inr h \<Rightarrow> Some (current_agent_info h)
          | Inl e \<Rightarrow> None))"

text \<open>
  The agent steps \<open>batch\<close> are built from the stored \<open>history\<close> for the observations
  \<open>infos\<close>: one step for each observation, in order, with that observation as current and
  the observation from the history as previous.
\<close>

definition built_from_history :: "(string \<times> AgentStep) list \<Rightarrow> AgentInfo list \<Rightarrow> AgentStep list \<Rightarrow> bool" where
  "built_from_history history infos batch \<longleftrightarrow>
     length batch = length infos \<and>
     (\<forall>j<length infos.
        current_agent_info (batch ! j) = infos ! j \<and>
        previous_agent_info (batch ! j) = stored_previous history infos j)"

text \<open>
  For every worker of the manager \<open>m\<close>, with the results \<open>q\<close> on the step queue: the step
  commands not consumed are one if the worker's flag is set and none if it is not.
\<close>

definition flags_agree :: "SubprocessEnvManager \<Rightarrow> EnvironmentResponse list \<Rightarrow> bool" where
  "flags_agree m q \<longleftrightarrow>
     (\<forall>i<length (env_workers m).
        length (filter is_step_cmd (conn (env_workers m ! i)))
        + length (filter (\<lambda>r. resp_worker_id r = i) q)
        = (if waiting (env_workers m ! i) then 1 else 0))"

section \<open>Properties of the environment manager\<close>

subsection \<open>Polling\<close>

lemma length_clear_waiting [simp]:
  "length (env_workers (clear_waiting m i)) = length (env_workers m)"
  by (simp add: clear_waiting_def)

lemma poll_steps_distinct:
  "poll_steps m acc sw evs = Some (Inr (m2, ws, rest)) \<Longrightarrow>
   sw = set (map resp_worker_id acc) \<Longrightarrow> distinct (map resp_worker_id acc) \<Longrightarrow>
   distinct (map resp_worker_id ws)"
proof (induction m acc sw evs rule: poll_steps.induct)
  case (1 m worker_steps step_workers)
  then show ?case by simp
next
  case (2 m worker_steps step_workers evs)
  then show ?case by (auto split: if_splits)
next
  case (3 m worker_steps step_workers resp evs)
  show ?case
  proof (cases "resp_worker_id resp < length (env_workers m)")
    case False
    with "3.prems" show ?thesis by simp
  next
    case inrange: True
    show ?thesis
    proof (cases "resp_worker_id resp \<in> step_workers")
      case True
      with inrange "3.prems" "3.IH"(2) show ?thesis by simp
    next
      case False
      with inrange "3.prems" "3.IH"(1) show ?thesis by simp
    qed
  qed
qed

lemma poll_steps_skip_empty:
  "poll_steps m [] sw (replicate k None @ evs) = poll_steps m [] sw evs"
  by (induction k) auto

lemma poll_steps_only_empty: "poll_steps m [] sw (replicate k None) = None"
  by (induction k) auto

lemma poll_steps_drain:
  "\<forall>r\<in>set rs. resp_worker_id r < length (env_workers m) \<Longrightarrow>
   acc @ first_arrivals rs sw \<noteq> [] \<Longrightarrow>
   poll_steps m acc sw (map Some rs @ None # rest)
     = Some (Inr (foldl clear_waiting m (map resp_worker_id rs), acc @ first_arrivals rs sw, rest))"
proof (induction rs arbitrary: m acc sw)
  case Nil
  then show ?case by simp
next
  case (Cons r rs)
  have len: "\<forall>r\<in>set rs. resp_worker_id r < length (env_workers (clear_waiting m (resp_worker_id r)))"
    using Cons.prems(1) by simp
  have inr: "resp_worker_id r < length (env_workers m)" using Cons.prems(1) by simp
  show ?case
  proof (cases "resp_worker_id r \<in> sw")
    case True
    with Cons.prems(2) have ne: "acc @ first_arrivals rs sw \<noteq> []" by simp
    from Cons.IH[OF _ ne, of "clear_waiting m (resp_worker_id r)"] Cons.prems(1) True inr
    show ?thesis by simp
  next
    case False
    have ne: "(acc @ [r]) @ first_arrivals rs (insert (resp_worker_id r) sw) \<noteq> []" by simp
    from Cons.IH[OF _ ne, of "clear_waiting m (resp_worker_id r)"] Cons.prems(1) False inr
    show ?thesis by simp
  qed
qed



subsection \<open>Dispatch\<close>

lemma take_step_workers:
  "take_step m ps = Inr (a, m') \<Longrightarrow> env_workers m' = env_workers m \<and> policies m' = policies m"
  by (auto simp: take_step_def split: sum.splits prod.splits)

lemma queue_steps_loop_dispatched:
  "queue_steps_loop idxs m = Inr m' \<Longrightarrow> distinct idxs \<Longrightarrow>
   \<forall>i\<in>set idxs. i < length (env_workers m) \<Longrightarrow>
   dispatched idxs (env_workers m) (env_workers m') \<and> policies m' = policies m"
proof (induction idxs arbitrary: m)
  case Nil
  then show ?case by (simp add: dispatched_def)
next
  case (Cons i rest)
  let ?w = "env_workers m ! i"
  have i: "i < length (env_workers m)" "i \<notin> set rest" "distinct rest"
    using Cons.prems by auto
  show ?case
  proof (cases "waiting ?w")
    case True
    with Cons.prems have q: "queue_steps_loop rest m = Inr m'" by (simp add: Let_def)
    from Cons.IH[OF q] Cons.prems
    have d: "dispatched rest (env_workers m) (env_workers m')" and p: "policies m' = policies m"
      by auto
    have "dispatched (i # rest) (env_workers m) (env_workers m')"
      unfolding dispatched_def
    proof (intro conjI allI impI)
      show "length (env_workers m') = length (env_workers m)"
        using d by (simp add: dispatched_def)
    next
      fix j assume j: "j < length (env_workers m)"
      with d show "previous_agent_steps (env_workers m' ! j) = previous_agent_steps (env_workers m ! j)"
        by (simp add: dispatched_def)
      from j d show "worker_id (env_workers m' ! j) = worker_id (env_workers m ! j)"
        by (simp add: dispatched_def)
      from j d True show "waiting (env_workers m' ! j) = (waiting (env_workers m ! j) \<or> j \<in> set (i # rest))"
        by (auto simp: dispatched_def)
      from j d True
      show "\<exists>a. conn (env_workers m' ! j) = conn (env_workers m ! j) @
              (if j \<in> set (i # rest) \<and> \<not> waiting (env_workers m ! j) then [StepCmd a] else [])"
        unfolding dispatched_def by (cases "j = i") auto
    qed
    with p show ?thesis by simp
  next
    case False
    with Cons.prems obtain a m1 where
      ts: "take_step m (previous_agent_steps ?w) = Inr (a, m1)"
      by (auto simp: Let_def split: sum.splits)
    let ?m2 = "m1\<lparr>env_workers := (env_workers m1)[i := ?w\<lparr>conn := conn ?w @ [StepCmd a], waiting := True\<rparr>]\<rparr>"
    from ts have ew: "env_workers m1 = env_workers m" and pol: "policies m1 = policies m"
      using take_step_workers by blast+
    from Cons.prems False ts have q: "queue_steps_loop rest ?m2 = Inr m'"
      by (simp add: Let_def)
    have r: "\<forall>k\<in>set rest. k < length (env_workers ?m2)"
      using Cons.prems(3) ew by simp
    from Cons.IH[OF q i(3) r]
    have d: "dispatched rest (env_workers ?m2) (env_workers m')" and p: "policies m' = policies ?m2"
      by auto
    have "dispatched (i # rest) (env_workers m) (env_workers m')"
      unfolding dispatched_def
    proof (intro conjI allI impI)
      show "length (env_workers m') = length (env_workers m)"
        using d ew by (simp add: dispatched_def)
    next
      fix j assume j: "j < length (env_workers m)"
      let ?ws2 = "(env_workers m)[i := ?w\<lparr>conn := conn ?w @ [StepCmd a], waiting := True\<rparr>]"
      from d ew j have dj:
        "previous_agent_steps (env_workers m' ! j) = previous_agent_steps (?ws2 ! j)"
        "worker_id (env_workers m' ! j) = worker_id (?ws2 ! j)"
        "waiting (env_workers m' ! j) = (waiting (?ws2 ! j) \<or> j \<in> set rest)"
        "\<exists>b. conn (env_workers m' ! j) = conn (?ws2 ! j) @
              (if j \<in> set rest \<and> \<not> waiting (?ws2 ! j) then [StepCmd b] else [])"
        by (simp_all add: dispatched_def)
      from dj(1) j i show "previous_agent_steps (env_workers m' ! j) = previous_agent_steps (env_workers m ! j)"
        by (cases "j = i") simp_all
      from dj(2) j i show "worker_id (env_workers m' ! j) = worker_id (env_workers m ! j)"
        by (cases "j = i") simp_all
      from dj(3) j i False
      show "waiting (env_workers m' ! j) = (waiting (env_workers m ! j) \<or> j \<in> set (i # rest))"
        by (cases "j = i") simp_all
      from dj(4) j i False
      show "\<exists>a. conn (env_workers m' ! j) = conn (env_workers m ! j) @
              (if j \<in> set (i # rest) \<and> \<not> waiting (env_workers m ! j) then [StepCmd a] else [])"
        by (cases "j = i") simp_all
    qed
    with p pol show ?thesis by simp
  qed
qed

lemma queue_steps_dispatched:
  "queue_steps m = Inr m' \<Longrightarrow>
   dispatched [0..<length (env_workers m)] (env_workers m) (env_workers m')"
  using queue_steps_loop_dispatched[of "[0..<length (env_workers m)]" m m']
  by (simp add: queue_steps_def)

lemma queue_steps_length:
  "queue_steps m = Inr m' \<Longrightarrow> length (env_workers m') = length (env_workers m)"
  using queue_steps_dispatched by (auto simp: dispatched_def)



subsection \<open>Post-processing\<close>

lemma dict_get_KeyError: "dict_get d k = Inl e \<longleftrightarrow> e = KeyError \<and> k \<notin> fst ` set d"
  by (induction d) (auto split: if_splits)

lemma dict_get_Inr_iff: "(\<exists>v. dict_get d k = Inr v) \<longleftrightarrow> k \<in> fst ` set d"
  by (induction d) auto

lemma keys_dict_set: "fst ` set (dict_set d k v) = insert k (fst ` set d)"
proof (induction d)
  case Nil
  then show ?case by simp
next
  case (Cons kv d)
  obtain k' v' where kv: "kv = (k', v')" by (cases kv)
  show ?case
  proof (cases "k' = k")
    case True
    then show ?thesis by (simp add: kv)
  next
    case False
    then show ?thesis using Cons.IH by (simp add: kv insert_commute)
  qed
qed

lemma dict_get_dict_set: "dict_get (dict_set d k v) k' = (if k' = k then Inr v else dict_get d k')"
  by (induction d) auto

lemma map_update_same:
  "i < length ws \<Longrightarrow> f w' = f (ws ! i) \<Longrightarrow> map f (ws[i := w']) = map f ws"
  by (simp add: map_update list_update_same_conv)

lemma postprocess_agents_fail:
  "\<exists>info\<in>set infos. info_id info \<notin> keys_of w \<Longrightarrow>
   postprocess_agents w acts infos acc = Inl KeyError"
proof (induction infos arbitrary: w acc)
  case Nil
  then show ?case by simp
next
  case (Cons info infos)
  show ?case
  proof (cases "dict_get (previous_agent_steps w) (info_id info)")
    case (Inl e)
    then have "e = KeyError" by (simp add: dict_get_KeyError)
    with Inl show ?thesis by simp
  next
    case (Inr prev)
    then have k: "info_id info \<in> keys_of w"
      using dict_get_Inr_iff[of "previous_agent_steps w" "info_id info"] by (auto simp: keys_of_def)
    let ?new = "\<lparr> previous_agent_info = Some (current_agent_info prev),
                   current_agent_info = info, previous_action = acts (info_id info) \<rparr>"
    let ?w' = "w\<lparr>previous_agent_steps := dict_set (previous_agent_steps w) (info_id info) ?new\<rparr>"
    have "keys_of ?w' = keys_of w" using k by (auto simp: keys_of_def keys_dict_set)
    with Cons.prems k have "\<exists>info\<in>set infos. info_id info \<notin> keys_of ?w'" by auto
    from Cons.IH[OF this] Inr show ?thesis by (simp add: Let_def)
  qed
qed

lemma postprocess_agents_ok:
  "\<forall>info\<in>set infos. info_id info \<in> keys_of w \<Longrightarrow>
   \<exists>w' new. postprocess_agents w acts infos acc = Inr (w', acc @ new) \<and>
     map current_agent_info new = infos \<and>
     (\<forall>s\<in>set new. previous_agent_info s \<noteq> None \<and>
                   previous_action s = acts (info_id (current_agent_info s))) \<and>
     keys_of w' = keys_of w \<and> waiting w' = waiting w \<and> conn w' = conn w \<and>
     worker_id w' = worker_id w"
proof (induction infos arbitrary: w acc)
  case Nil
  then show ?case by simp
next
  case (Cons info infos)
  from Cons.prems have "info_id info \<in> keys_of w" by simp
  then obtain prev where prev: "dict_get (previous_agent_steps w) (info_id info) = Inr prev"
    using dict_get_Inr_iff[of "previous_agent_steps w" "info_id info"] by (auto simp: keys_of_def)
  let ?new = "\<lparr> previous_agent_info = Some (current_agent_info prev),
                 current_agent_info = info, previous_action = acts (info_id info) \<rparr>"
  let ?w' = "w\<lparr>previous_agent_steps := dict_set (previous_agent_steps w) (info_id info) ?new\<rparr>"
  have k: "keys_of ?w' = keys_of w"
    using \<open>info_id info \<in> keys_of w\<close> by (auto simp: keys_of_def keys_dict_set)
  with Cons.prems have "\<forall>info\<in>set infos. info_id info \<in> keys_of ?w'" by simp
  from Cons.IH[OF this, of "acc @ [?new]"] obtain w'' new where
    r: "postprocess_agents ?w' acts infos (acc @ [?new]) = Inr (w'', (acc @ [?new]) @ new)"
       "map current_agent_info new = infos"
       "\<forall>s\<in>set new. previous_agent_info s \<noteq> None \<and>
                   previous_action s = acts (info_id (current_agent_info s))"
       "keys_of w'' = keys_of ?w'" "waiting w'' = waiting ?w'" "conn w'' = conn ?w'"
       "worker_id w'' = worker_id ?w'"
    by blast
  show ?case
  proof (intro exI conjI)
    show "postprocess_agents w acts (info # infos) acc = Inr (w'', acc @ (?new # new))"
      using prev r(1) by (simp add: Let_def)
    show "map current_agent_info (?new # new) = info # infos" using r(2) by simp
    show "\<forall>s\<in>set (?new # new). previous_agent_info s \<noteq> None \<and>
                   previous_action s = acts (info_id (current_agent_info s))"
      using r(3) by simp
    show "keys_of w'' = keys_of w" using r(4) k by simp
    show "waiting w'' = waiting w" using r(5) by simp
    show "conn w'' = conn w" using r(6) by simp
    show "worker_id w'' = worker_id w" using r(7) by simp
  qed
qed

lemma same_control_refl: "same_control m m"
  by (simp add: same_control_def)

lemma same_control_trans: "same_control a b \<Longrightarrow> same_control b c \<Longrightarrow> same_control a c"
  by (simp add: same_control_def)

lemma same_control_length: "same_control m m' \<Longrightarrow> length (env_workers m') = length (env_workers m)"
  unfolding same_control_def using map_eq_imp_length_eq by blast

lemma map_eq_nth:
  "map f xs = map f ys \<Longrightarrow> j < length ys \<Longrightarrow> f (xs ! j) = f (ys ! j)"
  by (metis length_map nth_map)

lemma same_control_nth:
  "same_control m m' \<Longrightarrow> j < length (env_workers m) \<Longrightarrow>
   keys_of (env_workers m' ! j) = keys_of (env_workers m ! j) \<and>
   waiting (env_workers m' ! j) = waiting (env_workers m ! j) \<and>
   conn (env_workers m' ! j) = conn (env_workers m ! j) \<and>
   worker_id (env_workers m' ! j) = worker_id (env_workers m ! j)"
proof -
  assume sc: "same_control m m'" and j: "j < length (env_workers m)"
  from sc have e:
    "map keys_of (env_workers m') = map keys_of (env_workers m)"
    "map waiting (env_workers m') = map waiting (env_workers m)"
    "map conn (env_workers m') = map conn (env_workers m)"
    "map worker_id (env_workers m') = map worker_id (env_workers m)"
    by (simp_all add: same_control_def)
  show ?thesis
    using map_eq_nth[OF e(1) j] map_eq_nth[OF e(2) j] map_eq_nth[OF e(3) j] map_eq_nth[OF e(4) j]
    by blast
qed

lemma postprocess_loop_fail:
  "\<forall>r\<in>set rs. resp_worker_id r < length (env_workers m) \<Longrightarrow>
   \<exists>r\<in>set rs. \<exists>info\<in>set (all_agent_info r).
      info_id info \<notin> keys_of (env_workers m ! resp_worker_id r) \<Longrightarrow>
   postprocess_loop m rs acc = Inl KeyError"
proof (induction rs arbitrary: m acc)
  case Nil
  then show ?case by simp
next
  case (Cons r rs)
  let ?w = "env_workers m ! resp_worker_id r"
  have inr: "resp_worker_id r < length (env_workers m)" using Cons.prems(1) by simp
  show ?case
  proof (cases "\<forall>info\<in>set (all_agent_info r). info_id info \<in> keys_of ?w")
    case False
    then have "postprocess_agents ?w (previous_agent_action_infos m) (all_agent_info r) acc = Inl KeyError"
      using postprocess_agents_fail by blast
    with inr show ?thesis by simp
  next
    case True
    from postprocess_agents_ok[OF True, of "previous_agent_action_infos m" acc]
    obtain w' new where
      r: "postprocess_agents ?w (previous_agent_action_infos m) (all_agent_info r) acc = Inr (w', acc @ new)"
         "keys_of w' = keys_of ?w"
      by blast
    let ?m' = "m\<lparr>env_workers := (env_workers m)[resp_worker_id r := w']\<rparr>"
    have len: "\<forall>r\<in>set rs. resp_worker_id r < length (env_workers ?m')"
      using Cons.prems(1) by simp
    have keys: "\<And>j. j < length (env_workers m) \<Longrightarrow> keys_of (env_workers ?m' ! j) = keys_of (env_workers m ! j)"
    proof -
      fix j assume "j < length (env_workers m)"
      then show "keys_of (env_workers ?m' ! j) = keys_of (env_workers m ! j)"
        using r(2) by (cases "j = resp_worker_id r") simp_all
    qed
    from Cons.prems(2) True obtain r' info where
      "r' \<in> set rs" "info \<in> set (all_agent_info r')"
      "info_id info \<notin> keys_of (env_workers m ! resp_worker_id r')"
      by auto
    moreover from this Cons.prems(1) have "resp_worker_id r' < length (env_workers m)" by simp
    ultimately have "\<exists>r\<in>set rs. \<exists>info\<in>set (all_agent_info r).
        info_id info \<notin> keys_of (env_workers ?m' ! resp_worker_id r)"
      using keys by blast
    from Cons.IH[OF len this] r(1) inr show ?thesis by simp
  qed
qed

lemma postprocess_loop_ok:
  "\<forall>r\<in>set rs. resp_worker_id r < length (env_workers m) \<Longrightarrow>
   \<forall>r\<in>set rs. \<forall>info\<in>set (all_agent_info r).
      info_id info \<in> keys_of (env_workers m ! resp_worker_id r) \<Longrightarrow>
   \<exists>m' new. postprocess_loop m rs acc = Inr (acc @ new, m') \<and>
     map current_agent_info new = concat (map all_agent_info rs) \<and>
     (\<forall>s\<in>set new. previous_agent_info s \<noteq> None \<and>
                   previous_action s = previous_agent_action_infos m (info_id (current_agent_info s))) \<and>
     same_control m m'"
proof (induction rs arbitrary: m acc)
  case Nil
  then show ?case by (simp add: same_control_refl)
next
  case (Cons r rs)
  let ?w = "env_workers m ! resp_worker_id r"
  let ?acts = "previous_agent_action_infos m"
  have inr: "resp_worker_id r < length (env_workers m)" using Cons.prems(1) by simp
  have "\<forall>info\<in>set (all_agent_info r). info_id info \<in> keys_of ?w" using Cons.prems(2) by simp
  from postprocess_agents_ok[OF this, of ?acts acc]
  obtain w' new where
    r: "postprocess_agents ?w ?acts (all_agent_info r) acc = Inr (w', acc @ new)"
       "map current_agent_info new = all_agent_info r"
       "\<forall>s\<in>set new. previous_agent_info s \<noteq> None \<and>
                   previous_action s = ?acts (info_id (current_agent_info s))"
       "keys_of w' = keys_of ?w" "waiting w' = waiting ?w" "conn w' = conn ?w"
       "worker_id w' = worker_id ?w"
    by blast
  let ?m' = "m\<lparr>env_workers := (env_workers m)[resp_worker_id r := w']\<rparr>"
  have sc: "same_control m ?m'"
    using inr r(4-7) by (simp add: same_control_def map_update_same)
  have len: "\<forall>r\<in>set rs. resp_worker_id r < length (env_workers ?m')"
    using Cons.prems(1) by simp
  have keys: "\<forall>r\<in>set rs. \<forall>info\<in>set (all_agent_info r).
      info_id info \<in> keys_of (env_workers ?m' ! resp_worker_id r)"
    using Cons.prems same_control_nth[OF sc] by simp
  from Cons.IH[OF len keys, of "acc @ new"] obtain m'' new' where
    r2: "postprocess_loop ?m' rs (acc @ new) = Inr ((acc @ new) @ new', m'')"
        "map current_agent_info new' = concat (map all_agent_info rs)"
        "\<forall>s\<in>set new'. previous_agent_info s \<noteq> None \<and>
                   previous_action s = previous_agent_action_infos ?m' (info_id (current_agent_info s))"
        "same_control ?m' m''"
    by blast
  show ?case
  proof (intro exI conjI)
    show "postprocess_loop m (r # rs) acc = Inr (acc @ (new @ new'), m'')"
      using inr r(1) r2(1) by simp
    show "map current_agent_info (new @ new') = concat (map all_agent_info (r # rs))"
      using r(2) r2(2) by simp
    show "\<forall>s\<in>set (new @ new'). previous_agent_info s \<noteq> None \<and>
                   previous_action s = ?acts (info_id (current_agent_info s))"
      using r(3) r2(3) by auto
    show "same_control m m''" using sc r2(4) same_control_trans by blast
  qed
qed



subsection \<open>The whole of \<^verbatim>\<open>step\<close>\<close>

lemma clear_waiting_steps:
  "previous_agent_steps (env_workers (clear_waiting m i) ! j) = previous_agent_steps (env_workers m ! j)"
proof (cases "i < length (env_workers m)")
  case True
  then show ?thesis by (cases "j = i") (simp_all add: clear_waiting_def)
next
  case False
  then have "(env_workers m)[i := (env_workers m ! i)\<lparr>waiting := False\<rparr>] = env_workers m"
    by (simp add: list_update_beyond)
  then show ?thesis by (simp add: clear_waiting_def)
qed

lemma clear_waiting_acts:
  "previous_agent_action_infos (clear_waiting m i) = previous_agent_action_infos m"
  "policies (clear_waiting m i) = policies m"
  by (simp_all add: clear_waiting_def)

lemma clear_all_length:
  "length (env_workers (foldl clear_waiting m ids)) = length (env_workers m)"
  by (induction ids arbitrary: m) simp_all

lemma clear_all_steps:
  "previous_agent_steps (env_workers (foldl clear_waiting m ids) ! j) = previous_agent_steps (env_workers m ! j)"
  by (induction ids arbitrary: m) (simp_all add: clear_waiting_steps)

lemma clear_all_acts:
  "previous_agent_action_infos (foldl clear_waiting m ids) = previous_agent_action_infos m"
  by (induction ids arbitrary: m) (simp_all add: clear_waiting_acts)

lemma first_arrivals_subset: "set (first_arrivals rs sw) \<subseteq> set rs"
  by (induction rs arbitrary: sw) auto

lemma first_arrivals_nonempty: "resp_worker_id r0 \<notin> sw \<Longrightarrow> first_arrivals (r0 # rs) sw \<noteq> []"
  by simp

lemma step_unfold:
  assumes q: "queue_steps m = Inr m1"
    and inr: "\<forall>r\<in>set (r0 # rs). resp_worker_id r < length (env_workers m)"
  shows "step m (replicate k None @ map Some (r0 # rs) @ None # rest) =
     (case postprocess_steps (foldl clear_waiting m1 (map resp_worker_id (r0 # rs)))
             (first_arrivals (r0 # rs) {}) of
        Inl e \<Rightarrow> Some (Inl e)
      | Inr (agent_steps, m3) \<Rightarrow> Some (Inr (agent_steps, m3, rest)))"
proof -
  have len: "length (env_workers m1) = length (env_workers m)"
    using q by (rule queue_steps_length)
  have inr1: "\<forall>r\<in>set (r0 # rs). resp_worker_id r < length (env_workers m1)"
    using inr len by simp
  have ne: "[] @ first_arrivals (r0 # rs) {} \<noteq> []" by simp
  have "poll_steps m1 [] {} (replicate k None @ map Some (r0 # rs) @ None # rest)
      = poll_steps m1 [] {} (map Some (r0 # rs) @ None # rest)"
    by (rule poll_steps_skip_empty)
  also have "\<dots> = Some (Inr (foldl clear_waiting m1 (map resp_worker_id (r0 # rs)),
                         [] @ first_arrivals (r0 # rs) {}, rest))"
    using poll_steps_drain[OF inr1 ne] .
  finally show ?thesis using q by (simp add: step_def)
qed

lemma step_spins:
  assumes q: "queue_steps m = Inr m1"
  shows "step m (replicate k None) = None"
  using q by (simp add: step_def poll_steps_only_empty)

lemma queue_steps_keys:
  assumes q: "queue_steps m = Inr m1" and j: "j < length (env_workers m)"
  shows "previous_agent_steps (env_workers m1 ! j) = previous_agent_steps (env_workers m ! j)"
  using queue_steps_dispatched[OF q] j by (simp add: dispatched_def)



lemma unknown_iff:
  "dict_get (previous_agent_steps w) k = Inl KeyError \<longleftrightarrow> k \<notin> keys_of w"
  by (simp add: dict_get_KeyError keys_of_def)

lemma postprocess_after_poll:
  assumes q: "queue_steps m = Inr m1"
    and inr: "\<forall>r\<in>set rs. resp_worker_id r < length (env_workers m)"
  shows "\<forall>r\<in>set (first_arrivals rs {}).
           resp_worker_id r < length (env_workers (foldl clear_waiting m1 (map resp_worker_id rs))) \<and>
           keys_of (env_workers (foldl clear_waiting m1 (map resp_worker_id rs)) ! resp_worker_id r)
             = keys_of (env_workers m ! resp_worker_id r)"
proof
  fix r assume "r \<in> set (first_arrivals rs {})"
  then have "r \<in> set rs" using first_arrivals_subset by blast
  with inr have j: "resp_worker_id r < length (env_workers m)" by simp
  have len: "length (env_workers m1) = length (env_workers m)" using q by (rule queue_steps_length)
  show "resp_worker_id r < length (env_workers (foldl clear_waiting m1 (map resp_worker_id rs))) \<and>
        keys_of (env_workers (foldl clear_waiting m1 (map resp_worker_id rs)) ! resp_worker_id r)
          = keys_of (env_workers m ! resp_worker_id r)"
    using j len queue_steps_keys[OF q j] by (simp add: clear_all_length clear_all_steps keys_of_def)
qed

text \<open>
  Claim C1. Once the steps are queued, \<^verbatim>\<open>step\<close> retries empty polls (\<open>k\<close> of them
  here), and when a drain yields the responses \<open>r0 # rs\<close> (one response is enough; the
  number of workers plays no part) it returns at the next empty poll, leaving the later
  events \<open>rest\<close> unread. Its result is the post-processing of the first response of each
  worker, \<open>r0\<close> first. While no response arrives it does not return.
\<close>

theorem step_returns_on_first_result:
  assumes "queue_steps m = Inr m1"
    and "\<forall>r\<in>set (r0 # rs). resp_worker_id r < length (env_workers m)"
  shows "(\<exists>res. step m (replicate k None @ map Some (r0 # rs) @ None # rest) = Some res) \<and>
         step m (replicate k None @ map Some (r0 # rs) @ None # rest) =
           (case postprocess_steps (foldl clear_waiting m1 (map resp_worker_id (r0 # rs)))
                   (first_arrivals (r0 # rs) {}) of
              Inl e \<Rightarrow> Some (Inl e)
            | Inr (agent_steps, m3) \<Rightarrow> Some (Inr (agent_steps, m3, rest))) \<and>
         hd (first_arrivals (r0 # rs) {}) = r0 \<and>
         step m (replicate k None) = None"
proof -
  note eq = step_unfold[OF assms, of k rest]
  have "\<exists>res. step m (replicate k None @ map Some (r0 # rs) @ None # rest) = Some res"
    unfolding eq by (simp split: sum.split prod.split)
  moreover have "hd (first_arrivals (r0 # rs) {}) = r0" by simp
  moreover have "step m (replicate k None) = None" using assms(1) by (rule step_spins)
  ultimately show ?thesis using eq by blast
qed

lemma step_known_ok:
  assumes "queue_steps m = Inr m1"
    and "\<forall>r\<in>set (r0 # rs). resp_worker_id r < length (env_workers m)"
    and "\<forall>r\<in>set (first_arrivals (r0 # rs) {}). \<forall>info\<in>set (all_agent_info r).
           dict_get (previous_agent_steps (env_workers m ! resp_worker_id r)) (info_id info) \<noteq> Inl KeyError"
  shows "\<exists>agent_steps m3.
           step m (replicate k None @ map Some (r0 # rs) @ None # rest) = Some (Inr (agent_steps, m3, rest)) \<and>
           map current_agent_info agent_steps = concat (map all_agent_info (first_arrivals (r0 # rs) {})) \<and>
           (\<forall>s\<in>set agent_steps. previous_agent_info s \<noteq> None \<and>
              previous_action s = previous_agent_action_infos m1 (info_id (current_agent_info s)))"
proof -
  let ?m2 = "foldl clear_waiting m1 (map resp_worker_id (r0 # rs))"
  let ?ws = "first_arrivals (r0 # rs) {}"
  note fr = postprocess_after_poll[OF assms(1,2)]
  have inr: "\<forall>r\<in>set ?ws. resp_worker_id r < length (env_workers ?m2)" using fr by blast
  have known: "\<forall>r\<in>set ?ws. \<forall>info\<in>set (all_agent_info r).
      info_id info \<in> keys_of (env_workers ?m2 ! resp_worker_id r)"
    using fr assms(3) unfolding unknown_iff by blast
  from postprocess_loop_ok[OF inr known, of "[]"] obtain m3 new where
    p: "postprocess_loop ?m2 ?ws [] = Inr ([] @ new, m3)"
       "map current_agent_info new = concat (map all_agent_info ?ws)"
       "\<forall>s\<in>set new. previous_agent_info s \<noteq> None \<and>
           previous_action s = previous_agent_action_infos ?m2 (info_id (current_agent_info s))"
    by blast
  have "step m (replicate k None @ map Some (r0 # rs) @ None # rest) = Some (Inr (new, m3, rest))"
    unfolding step_unfold[OF assms(1,2)] using p(1) by (simp add: postprocess_steps_def)
  with p(2,3) show ?thesis unfolding clear_all_acts by blast
qed

text \<open>
  Claim C2, as amended. When every agent of the responses kept has a stored step, \<^verbatim>\<open>step\<close>
  returns the new agent steps in the order in which the workers' first responses arrived
  on the step queue, and within a worker in the order of its observations; the order is
  not by worker id.
\<close>

theorem step_order_is_arrival_order:
  assumes "queue_steps m = Inr m1"
    and "\<forall>r\<in>set (r0 # rs). resp_worker_id r < length (env_workers m)"
    and "\<forall>r\<in>set (first_arrivals (r0 # rs) {}). \<forall>info\<in>set (all_agent_info r).
           dict_get (previous_agent_steps (env_workers m ! resp_worker_id r)) (info_id info) \<noteq> Inl KeyError"
  shows "\<exists>agent_steps m3.
           step m (replicate k None @ map Some (r0 # rs) @ None # rest) = Some (Inr (agent_steps, m3, rest)) \<and>
           map current_agent_info agent_steps = concat (map all_agent_info (first_arrivals (r0 # rs) {}))"
  using step_known_ok[OF assms, of k rest] by blast

text \<open>
  Claim C10. The stored step of an agent is looked up by unguarded indexing: a call of
  \<^verbatim>\<open>step\<close> whose drain yields the responses \<open>r0 # rs\<close> raises \<^verbatim>\<open>KeyError\<close> exactly when
  a response it keeps names an agent id with no stored step in that worker's history.
\<close>

theorem step_unseen_agent_fails:
  assumes "queue_steps m = Inr m1"
    and "\<forall>r\<in>set (r0 # rs). resp_worker_id r < length (env_workers m)"
  shows "step m (replicate k None @ map Some (r0 # rs) @ None # rest) = Some (Inl KeyError) \<longleftrightarrow>
         (\<exists>r\<in>set (first_arrivals (r0 # rs) {}). \<exists>info\<in>set (all_agent_info r).
            dict_get (previous_agent_steps (env_workers m ! resp_worker_id r)) (info_id info) = Inl KeyError)"
proof
  let ?m2 = "foldl clear_waiting m1 (map resp_worker_id (r0 # rs))"
  let ?ws = "first_arrivals (r0 # rs) {}"
  note fr = postprocess_after_poll[OF assms(1,2)]
  have inr: "\<forall>r\<in>set ?ws. resp_worker_id r < length (env_workers ?m2)" using fr by blast
  {
    assume "\<exists>r\<in>set ?ws. \<exists>info\<in>set (all_agent_info r).
            dict_get (previous_agent_steps (env_workers m ! resp_worker_id r)) (info_id info) = Inl KeyError"
    then have "\<exists>r\<in>set ?ws. \<exists>info\<in>set (all_agent_info r).
        info_id info \<notin> keys_of (env_workers ?m2 ! resp_worker_id r)"
      using fr unfolding unknown_iff by blast
    from postprocess_loop_fail[OF inr this, of "[]"]
    show "step m (replicate k None @ map Some (r0 # rs) @ None # rest) = Some (Inl KeyError)"
      unfolding step_unfold[OF assms(1,2)] by (simp add: postprocess_steps_def)
  }
  {
    assume f: "step m (replicate k None @ map Some (r0 # rs) @ None # rest) = Some (Inl KeyError)"
    show "\<exists>r\<in>set ?ws. \<exists>info\<in>set (all_agent_info r).
            dict_get (previous_agent_steps (env_workers m ! resp_worker_id r)) (info_id info) = Inl KeyError"
    proof (rule ccontr)
      assume "\<not> ?thesis"
      then have "\<forall>r\<in>set ?ws. \<forall>info\<in>set (all_agent_info r).
           dict_get (previous_agent_steps (env_workers m ! resp_worker_id r)) (info_id info) \<noteq> Inl KeyError"
        by blast
      from step_known_ok[OF assms(1,2) this, of k rest] f show False by auto
    qed
  }
qed

lemma Inr_projr: "\<not> isl x \<Longrightarrow> x = Inr (projr x)"
  by (cases x) simp_all

lemma ex_queue_ok: "\<not> isl (queue_steps ex_after_reset)"
  by code_simp

lemma ex_length: "length (env_workers ex_after_reset) = 2"
  by code_simp

theorem step_returns_on_first_result_witness:
  "(\<exists>res. step ex_after_reset
       (replicate 2 None @ map Some [ex_resp 1 ''w1_agent'' 21] @ None # [Some (ex_resp 0 ''w0_agent'' 11)])
       = Some res) \<and>
   map_option (map_sum id (\<lambda>(agent_steps, m, rest). (map (info_id \<circ> current_agent_info) agent_steps, rest)))
     (step ex_after_reset
       (replicate 2 None @ map Some [ex_resp 1 ''w1_agent'' 21] @ None # [Some (ex_resp 0 ''w0_agent'' 11)]))
     = Some (Inr ([''w1_agent''], [Some (ex_resp 0 ''w0_agent'' 11)])) \<and>
   step ex_after_reset (replicate 2 None) = None"
proof -
  have q: "queue_steps ex_after_reset = Inr (projr (queue_steps ex_after_reset))"
    using ex_queue_ok by (rule Inr_projr)
  have r: "\<forall>r\<in>set [ex_resp 1 ''w1_agent'' 21]. resp_worker_id r < length (env_workers ex_after_reset)"
    by (simp add: ex_length ex_resp_def)
  have v: "map_option (map_sum id (\<lambda>(agent_steps, m, rest). (map (info_id \<circ> current_agent_info) agent_steps, rest)))
     (step ex_after_reset
       (replicate 2 None @ map Some [ex_resp 1 ''w1_agent'' 21] @ None # [Some (ex_resp 0 ''w0_agent'' 11)]))
     = Some (Inr ([''w1_agent''], [Some (ex_resp 0 ''w0_agent'' 11)]))"
    by code_simp
  note t = step_returns_on_first_result[OF q r, of 2 "[Some (ex_resp 0 ''w0_agent'' 11)]"]
  show ?thesis
    by (rule conjI[OF conjunct1[OF t] conjI[OF v conjunct2[OF conjunct2[OF conjunct2[OF t]]]]])
qed

theorem step_order_by_worker_id_counterexample:
  "map_option (map_sum id (map (info_id \<circ> current_agent_info) \<circ> fst))
     (step ex_after_reset
        [Some (ex_resp 1 ''w1_agent'' 21), Some (ex_resp 0 ''w0_agent'' 11), None])
   = Some (Inr [''w1_agent'', ''w0_agent''])"
  by code_simp

theorem step_order_is_arrival_order_witness:
  "\<exists>agent_steps m3.
     step ex_after_reset
       (replicate 0 None @ map Some [ex_resp 1 ''w1_agent'' 21, ex_resp 0 ''w0_agent'' 11] @ None # [])
       = Some (Inr (agent_steps, m3, [])) \<and>
     map current_agent_info agent_steps = [ex_agent ''w1_agent'' 21, ex_agent ''w0_agent'' 11]"
proof -
  let ?r1 = "ex_resp 1 ''w1_agent'' 21" and ?r0 = "ex_resp 0 ''w0_agent'' 11"
  have q: "queue_steps ex_after_reset = Inr (projr (queue_steps ex_after_reset))"
    using ex_queue_ok by (rule Inr_projr)
  have r: "\<forall>r\<in>set [?r1, ?r0]. resp_worker_id r < length (env_workers ex_after_reset)"
    by (simp add: ex_length ex_resp_def)
  have k: "\<forall>r\<in>set (first_arrivals [?r1, ?r0] {}). \<forall>info\<in>set (all_agent_info r).
           dict_get (previous_agent_steps (env_workers ex_after_reset ! resp_worker_id r)) (info_id info)
             \<noteq> Inl KeyError"
    by code_simp
  have c: "concat (map all_agent_info (first_arrivals [?r1, ?r0] {}))
             = [ex_agent ''w1_agent'' 21, ex_agent ''w0_agent'' 11]"
    by code_simp
  from step_order_is_arrival_order[OF q r k, of 0 "[]"] obtain agent_steps m3 where
    s: "step ex_after_reset (replicate 0 None @ map Some [?r1, ?r0] @ None # []) = Some (Inr (agent_steps, m3, []))"
    and o: "map current_agent_info agent_steps = concat (map all_agent_info (first_arrivals [?r1, ?r0] {}))"
    by blast
  show ?thesis
    by (rule exI, rule exI, rule conjI[OF s trans[OF o c]])
qed

theorem step_unseen_agent_fails_witness:
  "step ex_after_reset (replicate 0 None @ map Some [ex_resp 0 ''stranger'' 5] @ None # [])
     = Some (Inl KeyError) \<and>
   dict_get (previous_agent_steps (env_workers ex_after_reset ! 0)) ''stranger'' = Inl KeyError"
proof -
  let ?r = "ex_resp 0 ''stranger'' 5"
  have q: "queue_steps ex_after_reset = Inr (projr (queue_steps ex_after_reset))"
    using ex_queue_ok by (rule Inr_projr)
  have r: "\<forall>r\<in>set [?r]. resp_worker_id r < length (env_workers ex_after_reset)"
    by (simp add: ex_length ex_resp_def)
  have d: "dict_get (previous_agent_steps (env_workers ex_after_reset ! 0)) ''stranger'' = Inl KeyError"
    by code_simp
  have u: "\<exists>r\<in>set (first_arrivals [?r] {}). \<exists>info\<in>set (all_agent_info r).
            dict_get (previous_agent_steps (env_workers ex_after_reset ! resp_worker_id r)) (info_id info)
              = Inl KeyError"
    by code_simp
  note t = step_unseen_agent_fails[OF q r, of 0 "[]"]
  show ?thesis
    by (rule conjI[OF iffD2[OF t u] d])
qed

subsection \<open>Reset\<close>

lemma reset_drain_length:
  "reset_drain m evs = Some (Inr (m1, evs')) \<Longrightarrow>
   length (env_workers m1) = length (env_workers m)"
  by (induction m evs rule: reset_drain.induct) (auto split: if_splits)

lemma reset_drain_idle:
  "\<not> list_ex waiting (env_workers m) \<Longrightarrow> reset_drain m evs = Some (Inr (m, evs))"
  by (cases "(m, evs)" rule: reset_drain.cases) auto

lemma reset_agents_result:
  "reset_agents ew infos acc = (ew', steps) \<Longrightarrow>
   steps = acc @ map (\<lambda>info. \<lparr> previous_agent_info = None, current_agent_info = info,
                                 previous_action = None \<rparr>) infos \<and>
   keys_of ew' = keys_of ew \<union> info_id ` set infos"
proof (induction infos arbitrary: ew acc)
  case Nil
  then show ?case by simp
next
  case (Cons info infos)
  let ?s = "\<lparr> previous_agent_info = None, current_agent_info = info, previous_action = None \<rparr>"
  let ?ew = "ew\<lparr>previous_agent_steps := dict_set (previous_agent_steps ew) (info_id info) ?s\<rparr>"
  from Cons.prems have "reset_agents ?ew infos (acc @ [?s]) = (ew', steps)"
    by (simp add: Let_def)
  from Cons.IH[OF this] show ?case
    by (auto simp: keys_of_def keys_dict_set)
qed

lemma reset_recv_result:
  "reset_recv ews replies acc = Some (ews', steps) \<Longrightarrow>
   length ews' = length ews \<and> length ews \<le> length replies \<and>
   steps = acc @ map (\<lambda>info. \<lparr> previous_agent_info = None, current_agent_info = info,
                                 previous_action = None \<rparr>) (concat (take (length ews) replies)) \<and>
   (\<forall>i<length ews. info_id ` set (replies ! i) \<subseteq> keys_of (ews' ! i))"
proof (induction ews arbitrary: replies acc ews' steps)
  case Nil
  then show ?case by simp
next
  case (Cons ew ews)
  from Cons.prems obtain all_agent_infos replies' where rep: "replies = all_agent_infos # replies'"
    by (cases replies) auto
  obtain ew1 steps1 where a: "reset_agents ew all_agent_infos acc = (ew1, steps1)"
    by (cases "reset_agents ew all_agent_infos acc")
  with Cons.prems rep obtain ews2 where
    r: "reset_recv ews replies' steps1 = Some (ews2, steps)" and e: "ews' = ew1 # ews2"
    by (auto split: option.splits)
  note ra = reset_agents_result[OF a]
  from Cons.IH[OF r] have ih:
    "length ews2 = length ews" "length ews \<le> length replies'"
    "steps = steps1 @ map (\<lambda>info. \<lparr> previous_agent_info = None, current_agent_info = info,
                                 previous_action = None \<rparr>) (concat (take (length ews) replies'))"
    "\<forall>i<length ews. info_id ` set (replies' ! i) \<subseteq> keys_of (ews2 ! i)"
    by auto
  have "\<forall>i<length (ew # ews). info_id ` set (replies ! i) \<subseteq> keys_of (ews' ! i)"
  proof (intro allI impI)
    fix i assume "i < length (ew # ews)"
    then show "info_id ` set (replies ! i) \<subseteq> keys_of (ews' ! i)"
      using ra ih(4) e rep by (cases i) auto
  qed
  with ih ra e rep show ?case by simp
qed

lemma reset_recv_returns:
  "length ews \<le> length replies \<Longrightarrow> \<exists>res. reset_recv ews replies acc = Some res"
proof (induction ews arbitrary: replies acc)
  case Nil
  then show ?case by simp
next
  case (Cons ew ews)
  from Cons.prems obtain all_agent_infos replies' where rep: "replies = all_agent_infos # replies'"
    by (cases replies) auto
  obtain ew1 steps1 where a: "reset_agents ew all_agent_infos acc = (ew1, steps1)"
    by (cases "reset_agents ew all_agent_infos acc")
  from Cons.IH[of replies' steps1] Cons.prems rep obtain res where
    "reset_recv ews replies' steps1 = Some res" by auto
  with a rep show ?case by (cases res) simp
qed

lemma reset_returns:
  assumes "\<not> list_ex waiting (env_workers m)" "length (env_workers m) \<le> length replies"
  shows "\<exists>reset_steps m'. reset m config train_mode custom evs replies = Some (Inr (reset_steps, m', evs))"
proof -
  from reset_recv_returns[of "reset_send (ResetCmd config train_mode custom) (env_workers m)" replies "[]"]
    assms(2)
  obtain ews steps where
    "reset_recv (reset_send (ResetCmd config train_mode custom) (env_workers m)) replies [] = Some (ews, steps)"
    by (auto simp: reset_send_def)
  then show ?thesis
    using reset_drain_idle[OF assms(1), of evs] by (simp add: reset_def)
qed

text \<open>
  Claim C9. Every agent step that \<^verbatim>\<open>reset\<close> returns has no previous agent info and no
  previous action; the steps are those of the workers' replies, in worker order; and
  afterwards each worker's history has a stored step for every agent id of its reply.
\<close>

theorem reset_steps_initial:
  assumes "reset m config train_mode custom evs replies = Some (Inr (reset_steps, m', evs'))"
  shows "(\<forall>s\<in>set reset_steps. previous_agent_info s = None \<and> previous_action s = None) \<and>
         map current_agent_info reset_steps = concat (take (length (env_workers m)) replies) \<and>
         length (env_workers m') = length (env_workers m) \<and>
         (\<forall>i<length (env_workers m). \<forall>info\<in>set (replies ! i).
            dict_get (previous_agent_steps (env_workers m' ! i)) (info_id info) \<noteq> Inl KeyError)"
proof -
  from assms obtain m1 ews where
    d: "reset_drain m evs = Some (Inr (m1, evs'))"
    and r: "reset_recv (reset_send (ResetCmd config train_mode custom) (env_workers m1)) replies []
              = Some (ews, reset_steps)"
    and m': "m' = m1\<lparr>env_workers := ews\<rparr>"
    by (auto simp: reset_def split: option.splits sum.splits)
  have len: "length (reset_send (ResetCmd config train_mode custom) (env_workers m1)) = length (env_workers m)"
    using reset_drain_length[OF d] by (simp add: reset_send_def)
  note rr = reset_recv_result[OF r, unfolded len]
  have "\<forall>s\<in>set reset_steps. previous_agent_info s = None \<and> previous_action s = None"
    using rr by auto
  moreover have "map current_agent_info reset_steps = concat (take (length (env_workers m)) replies)"
    using rr by (simp add: comp_def)
  moreover have "length (env_workers m') = length (env_workers m)"
    using rr m' by simp
  moreover have "\<forall>i<length (env_workers m). \<forall>info\<in>set (replies ! i).
            dict_get (previous_agent_steps (env_workers m' ! i)) (info_id info) \<noteq> Inl KeyError"
    using rr m' unfolding unknown_iff by auto
  ultimately show ?thesis by blast
qed

theorem reset_steps_initial_witness:
  "\<exists>reset_steps m'.
     reset ex_manager 0 True 0 [] [[ex_agent ''w0_agent'' 10], [ex_agent ''w1_agent'' 20]]
       = Some (Inr (reset_steps, m', [])) \<and>
     map current_agent_info reset_steps = [ex_agent ''w0_agent'' 10, ex_agent ''w1_agent'' 20] \<and>
     map previous_agent_info reset_steps = [None, None] \<and>
     map previous_action reset_steps = [None, None] \<and>
     dict_get (previous_agent_steps (env_workers m' ! 1)) ''w1_agent'' \<noteq> Inl KeyError"
proof -
  let ?replies = "[[ex_agent ''w0_agent'' 10], [ex_agent ''w1_agent'' 20]]"
  have idle: "\<not> list_ex waiting (env_workers ex_manager)" by code_simp
  have len: "length (env_workers ex_manager) = 2" by code_simp
  from reset_returns[OF idle, of ?replies 0 True 0 "[]"] len obtain reset_steps m' where
    r: "reset ex_manager 0 True 0 [] ?replies = Some (Inr (reset_steps, m', []))"
    by auto
  note t = reset_steps_initial[OF r, unfolded len]
  from t have c: "map current_agent_info reset_steps = [ex_agent ''w0_agent'' 10, ex_agent ''w1_agent'' 20]"
    by simp
  then have l: "length reset_steps = 2" by (metis length_map length_Cons list.size(3) numeral_2_eq_2)
  from t have n: "\<forall>s\<in>set reset_steps. previous_agent_info s = None \<and> previous_action s = None"
    by blast
  from l n have p: "map previous_agent_info reset_steps = [None, None]"
    by (cases reset_steps; cases "tl reset_steps") auto
  from l n have a: "map previous_action reset_steps = [None, None]"
    by (cases reset_steps; cases "tl reset_steps") auto
  from t have "\<forall>i<2. \<forall>info\<in>set (?replies ! i).
      dict_get (previous_agent_steps (env_workers m' ! i)) (info_id info) \<noteq> Inl KeyError"
    by blast
  then have "\<forall>info\<in>set (?replies ! 1).
      dict_get (previous_agent_steps (env_workers m' ! 1)) (info_id info) \<noteq> Inl KeyError"
    by simp
  then have k: "dict_get (previous_agent_steps (env_workers m' ! 1)) ''w1_agent'' \<noteq> Inl KeyError"
    by (simp add: ex_agent_def)
  show ?thesis
    by (rule exI, rule exI, rule conjI[OF r conjI[OF c conjI[OF p conjI[OF a k]]]])
qed

subsection \<open>The action recorded for an agent id\<close>

text \<open>
  Claim C6 fails on the code when two workers hold agents with the same id. Both workers
  are idle; \<^verbatim>\<open>step\<close> sends worker 0 the action \<open>[10]\<close> for its agent and worker 1 the
  action \<open>[20]\<close> for its agent of the same id, and \<^verbatim>\<open>previous_agent_action_infos\<close>, keyed
  by agent id alone, keeps the second. The agent step returned for worker 0's agent then
  carries \<open>[20]\<close> as its previous action.
\<close>

theorem step_previous_action_collision:
  "map (last \<circ> conn) (env_workers (projr (queue_steps ex_collide)))
     = [StepCmd [(''brain'', \<lparr> action = [[10]], memory = None, text_action = None,
                                value_estimate = None, outputs = [] \<rparr>)],
        StepCmd [(''brain'', \<lparr> action = [[20]], memory = None, text_action = None,
                                value_estimate = None, outputs = [] \<rparr>)]] \<and>
   map_option (map_sum id (map (map_option agent_action \<circ> previous_action) \<circ> fst))
     (step ex_collide [Some (ex_resp 0 ''agent'' 11), None])
     = Some (Inr [Some [20]])"
  by code_simp

section \<open>Properties of the training loop\<close>

subsection \<open>Handing the agent steps to the trainers\<close>

theorem advance_dispatch_owner_only_counterexample:
  "brain_name (current_agent_info ex_agent_step) = ''A'' \<and>
   map_sum id (map fst \<circ> trainers \<circ> fst \<circ> snd)
     (advance ex_trainer ex_env_manager ex_curriculum (ex_controller True 0) ())
   = Inr [''A'', ''B''] \<and>
   map_sum id (map (map (info_id \<circ> current_agent_info) \<circ> fst \<circ> snd) \<circ> trainers \<circ> fst \<circ> snd)
     (advance ex_trainer ex_env_manager ex_curriculum (ex_controller True 0) ())
   = Inr [[''a1''], [''a1'']]"
  by code_simp

lemma give_experiences_fold:
  "give_experiences T agent_steps trs =
     map (\<lambda>(bn, t). (bn, fold (\<lambda>s t. process_experiences T s (add_experiences T s t)) agent_steps t)) trs"
proof (induction agent_steps arbitrary: trs)
  case Nil
  then show ?case by (simp add: case_prod_beta)
next
  case (Cons s agent_steps)
  show ?case
    unfolding give_experiences.simps Cons.IH
    by (simp add: give_experience_def case_prod_beta comp_def)
qed

text \<open>
  Claim C4, as amended. In a pass of \<^verbatim>\<open>advance\<close> the controller hands every agent step
  that \<^verbatim>\<open>step\<close> returned to the trainer of every brain, whatever brain the agent belongs
  to: before the trainers are updated, each trainer has been given (add experiences, then
  process experiences) all the new agent steps, in the order returned.
\<close>

theorem advance_dispatch_every_trainer:
  "advance T E M c env =
     (case advance_curriculum T E M c env of
        Inl e \<Rightarrow> Inl e
      | Inr (c1, env1) \<Rightarrow>
         (case em_step E env1 of
            Inl e \<Rightarrow> Inl e
          | Inr (new_agent_steps, new_env_steps, env2) \<Rightarrow>
             (case update_trainers T E c1 new_env_steps
                     (map (\<lambda>(bn, t).
                        (bn, fold (\<lambda>s t. process_experiences T s (add_experiences T s t))
                               new_agent_steps t))
                        (trainers c1)) env2 of
                (trs, env3) \<Rightarrow> Inr (new_env_steps, c1\<lparr>trainers := trs\<rparr>, env3))))"
  unfolding advance_def give_experiences_fold ..

subsection \<open>The end of the training loop\<close>

lemma advance_curriculum_train:
  "advance_curriculum T E M c env = Inr (c1, env1) \<Longrightarrow> train_model c1 = train_model c"
  by (auto simp: advance_curriculum_def Let_def split: option.splits prod.splits sum.splits if_splits)

lemma advance_train:
  "advance T E M c env = Inr (n, c1, env1) \<Longrightarrow> train_model c1 = train_model c"
  by (auto simp: advance_def split: sum.splits prod.splits dest: advance_curriculum_train)

lemma training_loop_exit:
  "training_loop T E M fuel c env g = Some (Inr (c', env', g')) \<Longrightarrow>
   train_model c' = train_model c \<and> \<not> not_done_training T c'"
proof (induction fuel arbitrary: c env g)
  case 0
  then show ?case by (auto split: if_splits)
next
  case (Suc fuel)
  show ?case
  proof (cases "not_done_training T c")
    case False
    with Suc.prems show ?thesis by auto
  next
    case True
    with Suc.prems obtain n c1 env1 g1 trs where
      a: "advance T E M c env = Inr (n, c1, env1)"
      and l: "training_loop T E M fuel (c1\<lparr>trainers := trs\<rparr>) env1 g1 = Some (Inr (c', env', g'))"
      by (auto split: sum.splits prod.splits)
    from Suc.IH[OF l] advance_train[OF a] show ?thesis by simp
  qed
qed

lemma not_done_training_iff:
  "not_done_training T c \<longleftrightarrow>
     \<not> train_model c \<or> (\<exists>(k, t)\<in>set (trainers c). get_step T t \<le> get_max_steps T t)"
  by (auto simp: not_done_training_def list_ex_iff)

lemma training_loop_done:
  "\<not> not_done_training T c \<Longrightarrow> training_loop T E M fuel c env g = Some (Inr (c, env, g))"
  by (cases fuel) simp_all

text \<open>
  Claim C5, as amended. The loop goes on while training is off or some trainer's step
  counter is within its maximum. So when training, the loop ends normally exactly in a
  state where every trainer's step counter exceeds its maximum (at once, without a pass,
  when that holds at the start); in inference-only mode it never ends normally, however
  many passes are allowed: it is still running, or an exception has left it.
\<close>

theorem training_loop_termination:
  "(not_done_training T c \<longleftrightarrow>
      \<not> train_model c \<or> (\<exists>(k, t)\<in>set (trainers c). get_step T t \<le> get_max_steps T t)) \<and>
   (\<forall>c' env' g'. training_loop T E M fuel c env g = Some (Inr (c', env', g')) \<longrightarrow>
      train_model c \<and> (\<forall>(k, t)\<in>set (trainers c'). get_max_steps T t < get_step T t)) \<and>
   (train_model c \<and> (\<forall>(k, t)\<in>set (trainers c). get_max_steps T t < get_step T t) \<longrightarrow>
      training_loop T E M fuel c env g = Some (Inr (c, env, g))) \<and>
   (\<not> train_model c \<longrightarrow>
      training_loop T E M fuel c env g = None \<or>
      (\<exists>e. training_loop T E M fuel c env g = Some (Inl e)))"
proof (intro conjI allI impI)
  show "not_done_training T c \<longleftrightarrow>
      \<not> train_model c \<or> (\<exists>(k, t)\<in>set (trainers c). get_step T t \<le> get_max_steps T t)"
    by (rule not_done_training_iff)
next
  fix c' env' g'
  assume r: "training_loop T E M fuel c env g = Some (Inr (c', env', g'))"
  from training_loop_exit[OF r] show "train_model c"
    by (auto simp: not_done_training_iff)
  from training_loop_exit[OF r]
  show "\<forall>(k, t)\<in>set (trainers c'). get_max_steps T t < get_step T t"
    by (auto simp: not_done_training_iff)
next
  assume "train_model c \<and> (\<forall>(k, t)\<in>set (trainers c). get_max_steps T t < get_step T t)"
  then have "\<not> not_done_training T c" by (auto simp: not_done_training_iff)
  then show "training_loop T E M fuel c env g = Some (Inr (c, env, g))"
    by (rule training_loop_done)
next
  assume n: "\<not> train_model c"
  show "training_loop T E M fuel c env g = None \<or>
      (\<exists>e. training_loop T E M fuel c env g = Some (Inl e))"
  proof (cases "training_loop T E M fuel c env g")
    case None
    then show ?thesis by simp
  next
    case (Some res)
    show ?thesis
    proof (cases res)
      case (Inl e)
      with Some show ?thesis by simp
    next
      case (Inr y)
      obtain c' env' g' where "y = (c', env', g')" by (cases y)
      with Some Inr training_loop_exit[of T E M fuel c env g c' env' g'] n
      show ?thesis by (auto simp: not_done_training_iff)
    qed
  qed
qed

theorem training_loop_inference_counterexample:
  "\<not> train_model (ex_controller False 10) \<and>
   map (get_step ex_trainer \<circ> snd) (trainers (ex_controller False 10)) = [10, 10] \<and>
   map (get_max_steps ex_trainer \<circ> snd) (trainers (ex_controller False 10)) = [3, 3] \<and>
   training_loop ex_trainer ex_env_manager ex_curriculum 0 (ex_controller False 10) () 0 = None \<and>
   training_loop ex_trainer ex_env_manager ex_curriculum 1 (ex_controller False 10) () 0 = None \<and>
   training_loop ex_trainer ex_env_manager ex_curriculum 20 (ex_controller False 10) () 0 = None"
  by code_simp

theorem training_loop_termination_witness:
  "(\<exists>c' g'. training_loop ex_trainer ex_env_manager ex_curriculum 10 (ex_controller True 0) () 0
              = Some (Inr (c', (), g')) \<and>
            train_model (ex_controller True 0) \<and>
            (\<forall>(k, t)\<in>set (trainers c'). get_max_steps ex_trainer t < get_step ex_trainer t)) \<and>
   training_loop ex_trainer ex_env_manager ex_curriculum 10 (ex_controller True 4) () 7
     = Some (Inr (ex_controller True 4, (), 7)) \<and>
   training_loop ex_trainer ex_env_manager ex_curriculum 10 (ex_controller False 4) () 0 = None"
proof -
  let ?run = "training_loop ex_trainer ex_env_manager ex_curriculum 10 (ex_controller True 0) () 0"
  have "case ?run of Some (Inr (c', env', g')) \<Rightarrow> True | _ \<Rightarrow> False"
    by code_simp
  then obtain c' g' where r: "?run = Some (Inr (c', (), g'))"
    by (auto split: option.splits sum.splits)
  note t = training_loop_termination[of ex_trainer "ex_controller True 0" ex_env_manager ex_curriculum 10 "()" 0]
  from t r have a: "train_model (ex_controller True 0) \<and>
      (\<forall>(k, t)\<in>set (trainers c'). get_max_steps ex_trainer t < get_step ex_trainer t)"
    by blast
  have h: "train_model (ex_controller True 4) \<and>
      (\<forall>(k, t)\<in>set (trainers (ex_controller True 4)). get_max_steps ex_trainer t < get_step ex_trainer t)"
    by code_simp
  note t2 = training_loop_termination[of ex_trainer "ex_controller True 4" ex_env_manager ex_curriculum 10 "()" 7]
  from t2 h have b: "training_loop ex_trainer ex_env_manager ex_curriculum 10 (ex_controller True 4) () 7
     = Some (Inr (ex_controller True 4, (), 7))"
    by blast
  have n: "\<not> train_model (ex_controller False 4)" by code_simp
  have i: "map_option isl (training_loop ex_trainer ex_env_manager ex_curriculum 10 (ex_controller False 4) () 0)
             \<noteq> Some True"
    by code_simp
  note t3 = training_loop_termination[of ex_trainer "ex_controller False 4" ex_env_manager ex_curriculum 10 "()" 0]
  from t3 n i have d: "training_loop ex_trainer ex_env_manager ex_curriculum 10 (ex_controller False 4) () 0 = None"
    by auto
  from r a have e: "\<exists>c' g'. ?run = Some (Inr (c', (), g')) \<and>
            train_model (ex_controller True 0) \<and>
            (\<forall>(k, t)\<in>set (trainers c'). get_max_steps ex_trainer t < get_step ex_trainer t)"
    by blast
  show ?thesis by (rule conjI[OF e conjI[OF b d]])
qed

subsection \<open>The responses that a call keeps\<close>

lemma arrived_append: "arrived (xs @ ys) = arrived xs @ arrived ys"
  by (induction xs rule: arrived.induct) simp_all

lemma arrived_map_Some: "arrived (map Some q) = q"
  by (induction q) simp_all

lemma poll_steps_result:
  "poll_steps m acc sw evs = Some (Inr (m2, ws, rest)) \<Longrightarrow>
   \<exists>pre. evs = pre @ rest \<and> ws = acc @ first_arrivals (arrived pre) sw \<and>
         m2 = foldl clear_waiting m (map resp_worker_id (arrived pre)) \<and>
         (\<forall>r\<in>set (arrived pre). resp_worker_id r < length (env_workers m))"
proof (induction m acc sw evs rule: poll_steps.induct)
  case (1 m worker_steps step_workers)
  then show ?case by simp
next
  case (2 m worker_steps step_workers evs)
  show ?case
  proof (cases "length worker_steps < 1")
    case True
    with "2.prems" have "poll_steps m worker_steps step_workers evs = Some (Inr (m2, ws, rest))"
      by simp
    from "2.IH"[OF True this] obtain pre where
      p: "evs = pre @ rest" "ws = worker_steps @ first_arrivals (arrived pre) step_workers"
         "m2 = foldl clear_waiting m (map resp_worker_id (arrived pre))"
         "\<forall>r\<in>set (arrived pre). resp_worker_id r < length (env_workers m)"
      by blast
    show ?thesis
      by (rule exI[of _ "None # pre"]) (use p in simp)
  next
    case False
    with "2.prems" have "m2 = m" "ws = worker_steps" "rest = evs" by simp_all
    then show ?thesis
      by (intro exI[of _ "[None]"]) simp
  qed
next
  case (3 m worker_steps step_workers resp evs)
  let ?k = "resp_worker_id resp"
  from "3.prems" have inr: "?k < length (env_workers m)" by (auto split: if_splits)
  show ?case
  proof (cases "?k \<in> step_workers")
    case True
    with inr "3.prems" have
      "poll_steps (clear_waiting m ?k) worker_steps step_workers evs = Some (Inr (m2, ws, rest))"
      by simp
    from "3.IH"(2)[OF _ _ this] inr True obtain pre where
      p: "evs = pre @ rest" "ws = worker_steps @ first_arrivals (arrived pre) step_workers"
         "m2 = foldl clear_waiting (clear_waiting m ?k) (map resp_worker_id (arrived pre))"
         "\<forall>r\<in>set (arrived pre). resp_worker_id r < length (env_workers (clear_waiting m ?k))"
      by auto
    show ?thesis
      by (rule exI[of _ "Some resp # pre"]) (use p inr True in simp)
  next
    case False
    with inr "3.prems" have
      "poll_steps (clear_waiting m ?k) (worker_steps @ [resp]) (insert ?k step_workers) evs
         = Some (Inr (m2, ws, rest))"
      by simp
    from "3.IH"(1)[OF _ _ this] inr False obtain pre where
      p: "evs = pre @ rest"
         "ws = (worker_steps @ [resp]) @ first_arrivals (arrived pre) (insert ?k step_workers)"
         "m2 = foldl clear_waiting (clear_waiting m ?k) (map resp_worker_id (arrived pre))"
         "\<forall>r\<in>set (arrived pre). resp_worker_id r < length (env_workers (clear_waiting m ?k))"
      by auto
    show ?thesis
      by (rule exI[of _ "Some resp # pre"]) (use p inr False in simp)
  qed
qed

lemma first_arrivals_first:
  "r \<in> set (first_arrivals rs sw) \<Longrightarrow>
   resp_worker_id r \<notin> sw \<and> find (\<lambda>x. resp_worker_id x = resp_worker_id r) rs = Some r"
proof (induction rs arbitrary: sw)
  case Nil
  then show ?case by simp
next
  case (Cons x rs)
  show ?case
  proof (cases "resp_worker_id x \<in> sw")
    case True
    with Cons.prems have "r \<in> set (first_arrivals rs sw)" by simp
    from Cons.IH[OF this] True show ?thesis by auto
  next
    case False
    show ?thesis
    proof (cases "r = x")
      case True
      with False show ?thesis by simp
    next
      case ne: False
      with False Cons.prems have "r \<in> set (first_arrivals rs (insert (resp_worker_id x) sw))"
        by simp
      from Cons.IH[OF this] show ?thesis by auto
    qed
  qed
qed

lemma first_arrivals_ids:
  "resp_worker_id ` set (first_arrivals rs sw) = resp_worker_id ` set rs - sw"
  by (induction rs arbitrary: sw) auto

lemma first_arrivals_distinct: "distinct (map resp_worker_id (first_arrivals rs sw))"
proof (induction rs arbitrary: sw)
  case Nil
  then show ?case by simp
next
  case (Cons x rs)
  have "resp_worker_id x \<notin> resp_worker_id ` set (first_arrivals rs (insert (resp_worker_id x) sw))"
    unfolding first_arrivals_ids by simp
  with Cons.IH show ?case by simp
qed

text \<open>
  Claim C8. The result set of a call of \<^verbatim>\<open>step\<close> (the \<^verbatim>\<open>worker_steps\<close> that the
  polling loop hands to the post-processing) never holds two step responses of the same
  worker id. Of the responses that the call took off the step queue, it keeps for each
  worker the first one that arrived, in the order of arrival: a later response of a worker
  that is already in the set is skipped (it only clears the worker's \<open>waiting\<close> flag).
\<close>

theorem step_no_duplicate_worker:
  assumes "poll_steps m [] {} evs = Some (Inr (m2, worker_steps, rest))"
  shows "distinct (map resp_worker_id worker_steps) \<and>
         (\<exists>pre. evs = pre @ rest \<and>
            worker_steps = first_arrivals (arrived pre) {} \<and>
            resp_worker_id ` set worker_steps = resp_worker_id ` set (arrived pre) \<and>
            (\<forall>r\<in>set worker_steps.
               find (\<lambda>x. resp_worker_id x = resp_worker_id r) (arrived pre) = Some r))"
proof -
  from poll_steps_result[OF assms] obtain pre where
    p: "evs = pre @ rest" "worker_steps = first_arrivals (arrived pre) {}"
    by auto
  have d: "distinct (map resp_worker_id worker_steps)"
    unfolding p(2) by (rule first_arrivals_distinct)
  have i: "resp_worker_id ` set worker_steps = resp_worker_id ` set (arrived pre)"
    unfolding p(2) first_arrivals_ids by simp
  have f: "\<forall>r\<in>set worker_steps.
             find (\<lambda>x. resp_worker_id x = resp_worker_id r) (arrived pre) = Some r"
    unfolding p(2) using first_arrivals_first by blast
  from d p i f show ?thesis by blast
qed

theorem step_no_duplicate_worker_witness:
  "\<exists>m2 worker_steps rest.
     poll_steps ex_after_reset [] {}
       [Some (ex_resp 1 ''w1_agent'' 21), Some (ex_resp 1 ''w1_agent'' 22),
        Some (ex_resp 0 ''w0_agent'' 11), None] = Some (Inr (m2, worker_steps, rest)) \<and>
     worker_steps = [ex_resp 1 ''w1_agent'' 21, ex_resp 0 ''w0_agent'' 11] \<and>
     distinct (map resp_worker_id worker_steps) \<and>
     find (\<lambda>x. resp_worker_id x = 1)
       [ex_resp 1 ''w1_agent'' 21, ex_resp 1 ''w1_agent'' 22, ex_resp 0 ''w0_agent'' 11]
       = Some (ex_resp 1 ''w1_agent'' 21)"
proof -
  let ?evs = "[Some (ex_resp 1 ''w1_agent'' 21), Some (ex_resp 1 ''w1_agent'' 22),
        Some (ex_resp 0 ''w0_agent'' 11), None]"
  have "case poll_steps ex_after_reset [] {} ?evs of
          Some (Inr (m2, ws, rest)) \<Rightarrow> rest = [] | _ \<Rightarrow> False"
    by code_simp
  then obtain m2 ws where
    p: "poll_steps ex_after_reset [] {} ?evs = Some (Inr (m2, ws, []))"
    by (auto split: option.splits sum.splits)
  from step_no_duplicate_worker[OF p] obtain pre where
    d: "distinct (map resp_worker_id ws)"
    and e: "?evs = pre @ []" and w: "ws = first_arrivals (arrived pre) {}"
    and f: "\<forall>r\<in>set ws. find (\<lambda>x. resp_worker_id x = resp_worker_id r) (arrived pre) = Some r"
    by blast
  from e have pre: "pre = ?evs" by simp
  have a: "arrived ?evs = [ex_resp 1 ''w1_agent'' 21, ex_resp 1 ''w1_agent'' 22, ex_resp 0 ''w0_agent'' 11]"
    by simp
  have k: "first_arrivals [ex_resp 1 ''w1_agent'' 21, ex_resp 1 ''w1_agent'' 22, ex_resp 0 ''w0_agent'' 11] {}
             = [ex_resp 1 ''w1_agent'' 21, ex_resp 0 ''w0_agent'' 11]"
    by code_simp
  from w have w': "ws = [ex_resp 1 ''w1_agent'' 21, ex_resp 0 ''w0_agent'' 11]"
    unfolding pre a k .
  from f have "find (\<lambda>x. resp_worker_id x = resp_worker_id (ex_resp 1 ''w1_agent'' 21)) (arrived pre)
                 = Some (ex_resp 1 ''w1_agent'' 21)"
    unfolding w' by simp
  then have g: "find (\<lambda>x. resp_worker_id x = 1)
       [ex_resp 1 ''w1_agent'' 21, ex_resp 1 ''w1_agent'' 22, ex_resp 0 ''w0_agent'' 11]
       = Some (ex_resp 1 ''w1_agent'' 21)"
    unfolding pre a by (simp add: ex_resp_def)
  show ?thesis
    by (rule exI, rule exI, rule exI, rule conjI[OF p conjI[OF w' conjI[OF d g]]])
qed

subsection \<open>A step of a worker whose environment is done\<close>

lemma find_snoc:
  "find P (xs @ [y]) = (case find P xs of Some x \<Rightarrow> Some x | None \<Rightarrow> if P y then Some y else None)"
  by (induction xs) auto

lemma stored_previous_0:
  "dict_get history (info_id info) = Inr prev \<Longrightarrow>
   stored_previous history (info # infos) 0 = Some (current_agent_info prev)"
  by (simp add: stored_previous_def)

lemma stored_previous_Suc:
  assumes "j < length infos"
  shows "stored_previous history (info # infos) (Suc j) =
         stored_previous
           (dict_set history (info_id info)
              \<lparr> previous_agent_info = p, current_agent_info = info, previous_action = a \<rparr>)
           infos j"
  by (simp add: stored_previous_def find_snoc dict_get_dict_set split: option.split)

lemma postprocess_agents_exact:
  "postprocess_agents w acts infos acc = Inr (w', steps) \<Longrightarrow>
   \<exists>new. steps = acc @ new \<and> built_from_history (previous_agent_steps w) infos new"
proof (induction infos arbitrary: w acc)
  case Nil
  then show ?case by (simp add: built_from_history_def)
next
  case (Cons info infos)
  from Cons.prems obtain prev where
    prev: "dict_get (previous_agent_steps w) (info_id info) = Inr prev"
    by (auto split: sum.splits)
  let ?s = "\<lparr> previous_agent_info = Some (current_agent_info prev),
               current_agent_info = info, previous_action = acts (info_id info) \<rparr>"
  let ?h = "dict_set (previous_agent_steps w) (info_id info) ?s"
  let ?w = "w\<lparr>previous_agent_steps := ?h\<rparr>"
  from Cons.prems prev have "postprocess_agents ?w acts infos (acc @ [?s]) = Inr (w', steps)"
    by (simp add: Let_def)
  from Cons.IH[OF this] obtain new where
    n: "steps = (acc @ [?s]) @ new" and b: "built_from_history ?h infos new"
    by auto
  have "built_from_history (previous_agent_steps w) (info # infos) (?s # new)"
    unfolding built_from_history_def
  proof (intro conjI allI impI)
    show "length (?s # new) = length (info # infos)"
      using b by (simp add: built_from_history_def)
  next
    fix j assume j: "j < length (info # infos)"
    show "current_agent_info ((?s # new) ! j) = (info # infos) ! j"
      using b j by (cases j) (simp_all add: built_from_history_def)
    show "previous_agent_info ((?s # new) ! j) = stored_previous (previous_agent_steps w) (info # infos) j"
    proof (cases j)
      case 0
      then show ?thesis using stored_previous_0[OF prev] by simp
    next
      case (Suc k)
      with j have k: "k < length infos" by simp
      from b k have "previous_agent_info (new ! k) = stored_previous ?h infos k"
        by (simp add: built_from_history_def)
      with Suc show ?thesis
        using stored_previous_Suc[OF k, of "previous_agent_steps w" info] by simp
    qed
  qed
  with n show ?case by (intro exI[of _ "?s # new"]) simp
qed

lemma postprocess_agents_history_only:
  assumes "postprocess_agents w acts infos acc = Inr (w', steps)"
  shows "w' = w\<lparr>previous_agent_steps := previous_agent_steps w'\<rparr>"
  using assms
proof (induction infos arbitrary: w acc)
  case Nil
  then show ?case by simp
next
  case (Cons info infos)
  from Cons.prems obtain prev where
    prev: "dict_get (previous_agent_steps w) (info_id info) = Inr prev"
    by (auto split: sum.splits)
  let ?s = "\<lparr> previous_agent_info = Some (current_agent_info prev),
               current_agent_info = info, previous_action = acts (info_id info) \<rparr>"
  let ?w = "w\<lparr>previous_agent_steps := dict_set (previous_agent_steps w) (info_id info) ?s\<rparr>"
  from Cons.prems prev have "postprocess_agents ?w acts infos (acc @ [?s]) = Inr (w', steps)"
    by (simp add: Let_def)
  from Cons.IH[OF this] show ?case by (cases w') simp
qed

lemma postprocess_loop_exact:
  "postprocess_loop m rs acc = Inr (steps, m') \<Longrightarrow> distinct (map resp_worker_id rs) \<Longrightarrow>
   \<exists>batches. steps = acc @ concat batches \<and>
     list_all2 (\<lambda>r batch. built_from_history
                   (previous_agent_steps (env_workers m ! resp_worker_id r)) (all_agent_info r) batch)
       rs batches"
proof (induction rs arbitrary: m acc)
  case Nil
  then show ?case by simp
next
  case (Cons r rs)
  let ?k = "resp_worker_id r"
  let ?w = "env_workers m ! ?k"
  from Cons.prems(1) have inr: "?k < length (env_workers m)" by (auto split: if_splits)
  with Cons.prems(1) obtain w' acc' where
    a: "postprocess_agents ?w (previous_agent_action_infos m) (all_agent_info r) acc = Inr (w', acc')"
    and l: "postprocess_loop (m\<lparr>env_workers := (env_workers m)[?k := w']\<rparr>) rs acc' = Inr (steps, m')"
    by (auto split: sum.splits)
  let ?m1 = "m\<lparr>env_workers := (env_workers m)[?k := w']\<rparr>"
  from postprocess_agents_exact[OF a] obtain new where
    n: "acc' = acc @ new" and b: "built_from_history (previous_agent_steps ?w) (all_agent_info r) new"
    by auto
  from Cons.prems(2) have d: "distinct (map resp_worker_id rs)" and ne: "\<forall>x\<in>set rs. resp_worker_id x \<noteq> ?k"
    by (auto simp: image_iff)
  from Cons.IH[OF l d] obtain batches where
    s: "steps = acc' @ concat batches"
    and bs: "list_all2 (\<lambda>r batch. built_from_history
                   (previous_agent_steps (env_workers ?m1 ! resp_worker_id r)) (all_agent_info r) batch)
        rs batches"
    by auto
  have "list_all2 (\<lambda>r batch. built_from_history
                   (previous_agent_steps (env_workers m ! resp_worker_id r)) (all_agent_info r) batch)
        rs batches"
    unfolding list_all2_conv_all_nth
  proof (intro conjI allI impI)
    show "length rs = length batches" using bs by (simp add: list_all2_conv_all_nth)
  next
    fix i assume i: "i < length rs"
    then have "resp_worker_id (rs ! i) \<noteq> ?k" using ne by simp
    then have e: "env_workers ?m1 ! resp_worker_id (rs ! i) = env_workers m ! resp_worker_id (rs ! i)"
      by simp
    from bs i have "built_from_history
        (previous_agent_steps (env_workers ?m1 ! resp_worker_id (rs ! i))) (all_agent_info (rs ! i)) (batches ! i)"
      by (simp add: list_all2_conv_all_nth)
    then show "built_from_history
        (previous_agent_steps (env_workers m ! resp_worker_id (rs ! i))) (all_agent_info (rs ! i)) (batches ! i)"
      unfolding e .
  qed
  with b s n show ?case
    by (intro exI[of _ "new # batches"]) simp
qed

lemma step_built:
  assumes q: "queue_steps m = Inr m1"
    and inr: "\<forall>x\<in>set (r0 # rs). resp_worker_id x < length (env_workers m)"
    and s: "step m (replicate k None @ map Some (r0 # rs) @ None # rest) = Some (Inr (agent_steps, m3, rest'))"
  shows "\<exists>batches. agent_steps = concat batches \<and>
     list_all2 (\<lambda>r batch. built_from_history
                   (previous_agent_steps (env_workers m ! resp_worker_id r)) (all_agent_info r) batch)
       (first_arrivals (r0 # rs) {}) batches"
proof -
  let ?m2 = "foldl clear_waiting m1 (map resp_worker_id (r0 # rs))"
  let ?ws = "first_arrivals (r0 # rs) {}"
  from s have c: "(case postprocess_steps ?m2 ?ws of
        Inl e \<Rightarrow> Some (Inl e)
      | Inr (agent_steps, m3) \<Rightarrow> Some (Inr (agent_steps, m3, rest))) = Some (Inr (agent_steps, m3, rest'))"
    by (simp only: step_unfold[OF q inr])
  have "postprocess_steps ?m2 ?ws = Inr (agent_steps, m3)"
  proof (cases "postprocess_steps ?m2 ?ws")
    case (Inl e)
    with c show ?thesis by (simp only: sum.case) simp
  next
    case (Inr p)
    with c show ?thesis by (cases p) (simp only: sum.case prod.case, simp)
  qed
  then have p: "postprocess_loop ?m2 ?ws [] = Inr (agent_steps, m3)"
    by (simp only: postprocess_steps_def)
  from postprocess_loop_exact[OF p first_arrivals_distinct] obtain batches where
    a: "agent_steps = concat batches"
    and b: "list_all2 (\<lambda>r batch. built_from_history
                   (previous_agent_steps (env_workers ?m2 ! resp_worker_id r)) (all_agent_info r) batch)
        ?ws batches"
    by auto
  have "list_all2 (\<lambda>r batch. built_from_history
                   (previous_agent_steps (env_workers m ! resp_worker_id r)) (all_agent_info r) batch)
        ?ws batches"
    unfolding list_all2_conv_all_nth
  proof (intro conjI allI impI)
    show "length ?ws = length batches" using b by (simp add: list_all2_conv_all_nth)
  next
    fix i assume i: "i < length ?ws"
    then have "?ws ! i \<in> set (r0 # rs)" using first_arrivals_subset nth_mem by blast
    with inr have j: "resp_worker_id (?ws ! i) < length (env_workers m)" by blast
    have e: "previous_agent_steps (env_workers ?m2 ! resp_worker_id (?ws ! i))
           = previous_agent_steps (env_workers m ! resp_worker_id (?ws ! i))"
      using queue_steps_keys[OF q j] by (simp only: clear_all_steps)
    from b i have "built_from_history
        (previous_agent_steps (env_workers ?m2 ! resp_worker_id (?ws ! i)))
        (all_agent_info (?ws ! i)) (batches ! i)"
      by (simp add: list_all2_conv_all_nth)
    then show "built_from_history
        (previous_agent_steps (env_workers m ! resp_worker_id (?ws ! i)))
        (all_agent_info (?ws ! i)) (batches ! i)"
      unfolding e .
  qed
  with a show ?thesis by blast
qed

lemma built_from_history_current:
  "built_from_history history infos batch \<Longrightarrow> map current_agent_info batch = infos"
  by (auto simp: built_from_history_def list_eq_iff_nth_eq)

theorem global_done_step_absent_previous_counterexample:
  "global_done ex_env (True, 5) \<and>
   worker_command ex_env 0 (True, 5) (StepCmd [(''brain'', ex_policy [ex_agent ''w0_agent'' 10])])
     = Inr ((False, 0), PutStep (ex_resp 0 ''w0_agent'' 0)) \<and>
   map_option (map_sum id (map previous_agent_info \<circ> fst))
     (step ex_after_reset [Some (ex_resp 0 ''w0_agent'' 0), None])
     = Some (Inr [Some (ex_agent ''w0_agent'' 10)])"
  by code_simp

text \<open>
  Claim C3, as amended. A worker whose environment reports global-done answers a step
  command with the observations of \<^verbatim>\<open>env.reset()\<close>, put on the step queue as a step
  response. A call of \<^verbatim>\<open>step\<close> that keeps this response (whatever else it drains) treats
  it as any other step result: it raises \<^verbatim>\<open>KeyError\<close> (an agent id with no stored step),
  or it returns, among its agent steps, one agent step for each observation of the reset,
  built from the history stored for that worker before the call: the previous agent info
  is present, and is the current observation of the stored step of the agent id (or an
  earlier observation of the same agent id in the batch).
\<close>

theorem global_done_step_is_incremental:
  assumes "global_done env e" and "env_reset env e = Inr (infos, e')"
    and "queue_steps m = Inr m1"
    and "\<forall>x\<in>set (r0 # rs). resp_worker_id x < length (env_workers m)"
    and "r = \<lparr> resp_worker_id = wid, all_agent_info = infos \<rparr>"
    and "r \<in> set (first_arrivals (r0 # rs) {})"
  shows "worker_command env wid e (StepCmd a) = Inr (e', PutStep r) \<and>
         (step m (replicate k None @ map Some (r0 # rs) @ None # rest) = Some (Inl KeyError) \<or>
          (\<exists>agent_steps m3 pre batch post.
             step m (replicate k None @ map Some (r0 # rs) @ None # rest)
               = Some (Inr (agent_steps, m3, rest)) \<and>
             agent_steps = pre @ batch @ post \<and>
             map current_agent_info batch = infos \<and>
             built_from_history (previous_agent_steps (env_workers m ! wid)) infos batch \<and>
             (\<forall>s\<in>set agent_steps. previous_agent_info s \<noteq> None)))"
proof
  show "worker_command env wid e (StepCmd a) = Inr (e', PutStep r)"
    using assms(1,2,5) by simp
next
  let ?evs = "replicate k None @ map Some (r0 # rs) @ None # rest"
  let ?ws = "first_arrivals (r0 # rs) {}"
  note q = assms(3) and inr = assms(4)
  show "step m ?evs = Some (Inl KeyError) \<or>
        (\<exists>agent_steps m3 pre batch post.
           step m ?evs = Some (Inr (agent_steps, m3, rest)) \<and>
           agent_steps = pre @ batch @ post \<and>
           map current_agent_info batch = infos \<and>
           built_from_history (previous_agent_steps (env_workers m ! wid)) infos batch \<and>
           (\<forall>s\<in>set agent_steps. previous_agent_info s \<noteq> None))"
  proof (cases "\<forall>x\<in>set ?ws. \<forall>info\<in>set (all_agent_info x).
           dict_get (previous_agent_steps (env_workers m ! resp_worker_id x)) (info_id info) \<noteq> Inl KeyError")
    case True
    from step_known_ok[OF q inr True, of k rest] obtain agent_steps m3 where
      s: "step m ?evs = Some (Inr (agent_steps, m3, rest))"
      and n: "\<forall>s\<in>set agent_steps. previous_agent_info s \<noteq> None"
      by blast
    from step_built[OF q inr s] obtain batches where
      c: "agent_steps = concat batches"
      and b: "list_all2 (\<lambda>r batch. built_from_history
                   (previous_agent_steps (env_workers m ! resp_worker_id r)) (all_agent_info r) batch)
            ?ws batches"
      by blast
    from assms(6)[unfolded in_set_conv_nth] obtain i where i: "i < length ?ws" and ri: "?ws ! i = r"
      by blast
    from b i have ib: "i < length batches" by (simp add: list_all2_conv_all_nth)
    from b i ri assms(5) have bh:
      "built_from_history (previous_agent_steps (env_workers m ! wid)) infos (batches ! i)"
      by (auto simp: list_all2_conv_all_nth)
    have "batches = take i batches @ batches ! i # drop (Suc i) batches"
      using ib by (rule id_take_nth_drop)
    then have "concat batches = concat (take i batches) @ batches ! i @ concat (drop (Suc i) batches)"
      by (metis concat.simps(2) concat_append)
    with c have sp: "agent_steps = concat (take i batches) @ batches ! i @ concat (drop (Suc i) batches)"
      by simp
    from s sp built_from_history_current[OF bh] bh n show ?thesis by blast
  next
    case False
    then have "\<exists>x\<in>set ?ws. \<exists>info\<in>set (all_agent_info x).
           dict_get (previous_agent_steps (env_workers m ! resp_worker_id x)) (info_id info) = Inl KeyError"
      by blast
    then have u: "\<exists>x\<in>set ?ws. \<exists>info\<in>set (all_agent_info x).
        info_id info \<notin> keys_of (env_workers (foldl clear_waiting m1 (map resp_worker_id (r0 # rs))) ! resp_worker_id x)"
      using postprocess_after_poll[OF q inr] unfolding unknown_iff by blast
    have i2: "\<forall>x\<in>set ?ws. resp_worker_id x
                < length (env_workers (foldl clear_waiting m1 (map resp_worker_id (r0 # rs))))"
      using postprocess_after_poll[OF q inr] by blast
    from postprocess_loop_fail[OF i2 u, of "[]"]
    have "step m ?evs = Some (Inl KeyError)"
      unfolding step_unfold[OF q inr] by (simp add: postprocess_steps_def)
    then show ?thesis by blast
  qed
qed

theorem global_done_step_is_incremental_witness:
  "global_done ex_env (True, 5) \<and>
   worker_command ex_env 0 (True, 5) (StepCmd []) = Inr ((False, 0), PutStep (ex_resp 0 ''w0_agent'' 0)) \<and>
   (\<exists>agent_steps m3 pre batch post.
      step ex_after_reset
        (replicate 0 None @ map Some [ex_resp 1 ''w1_agent'' 21, ex_resp 0 ''w0_agent'' 0] @ None # [])
        = Some (Inr (agent_steps, m3, [])) \<and>
      agent_steps = pre @ batch @ post \<and>
      map current_agent_info batch = [ex_agent ''w0_agent'' 0] \<and>
      map previous_agent_info batch = [Some (ex_agent ''w0_agent'' 10)])"
proof -
  let ?r = "ex_resp 0 ''w0_agent'' 0"
  let ?r1 = "ex_resp 1 ''w1_agent'' 21"
  let ?evs = "replicate 0 None @ map Some [?r1, ?r] @ None # []"
  let ?infos = "[ex_agent ''w0_agent'' 0]"
  have g: "global_done ex_env (True, 5)" by code_simp
  have er: "env_reset ex_env (True, 5) = Inr (?infos, (False, 0))" by code_simp
  have q: "queue_steps ex_after_reset = Inr (projr (queue_steps ex_after_reset))"
    using ex_queue_ok by (rule Inr_projr)
  have inr: "\<forall>x\<in>set [?r1, ?r]. resp_worker_id x < length (env_workers ex_after_reset)"
    by (simp add: ex_length ex_resp_def)
  have r: "?r = \<lparr> resp_worker_id = 0, all_agent_info = ?infos \<rparr>" by code_simp
  have kept: "?r \<in> set (first_arrivals [?r1, ?r] {})" by code_simp
  have n: "map_option isl (step ex_after_reset ?evs) = Some False" by code_simp
  have h: "stored_previous (previous_agent_steps (env_workers ex_after_reset ! 0)) ?infos 0
             = Some (ex_agent ''w0_agent'' 10)"
    by code_simp
  note t = global_done_step_is_incremental[OF g er q inr r kept, of "[]" 0 "[]"]
  have nk: "step ex_after_reset ?evs \<noteq> Some (Inl KeyError)"
  proof
    assume "step ex_after_reset ?evs = Some (Inl KeyError)"
    then have "map_option isl (step ex_after_reset ?evs) = Some True" by (simp only: option.map sum.disc)
    with n have "Some False = Some True" by (rule trans[OF sym])
    then show False by simp
  qed
  from conjunct2[OF t] have "\<exists>agent_steps m3 pre batch post.
      step ex_after_reset ?evs = Some (Inr (agent_steps, m3, [])) \<and>
      agent_steps = pre @ batch @ post \<and>
      map current_agent_info batch = ?infos \<and>
      built_from_history (previous_agent_steps (env_workers ex_after_reset ! 0)) ?infos batch \<and>
      (\<forall>s\<in>set agent_steps. previous_agent_info s \<noteq> None)"
  proof (rule disjE)
    assume "step ex_after_reset ?evs = Some (Inl KeyError)"
    with nk show ?thesis by (rule notE)
  qed
  then obtain agent_steps m3 pre batch post where
    s: "step ex_after_reset ?evs = Some (Inr (agent_steps, m3, []))"
    and sp: "agent_steps = pre @ batch @ post"
    and c: "map current_agent_info batch = ?infos"
    and b: "built_from_history (previous_agent_steps (env_workers ex_after_reset ! 0)) ?infos batch"
    by (elim exE conjE)
  from b have l: "length batch = 1"
    by (simp add: built_from_history_def)
  from b have "previous_agent_info (batch ! 0)
      = stored_previous (previous_agent_steps (env_workers ex_after_reset ! 0)) ?infos 0"
    by (simp add: built_from_history_def)
  then have p0: "previous_agent_info (batch ! 0) = Some (ex_agent ''w0_agent'' 10)"
    by (simp only: h)
  from l p0 have p: "map previous_agent_info batch = [Some (ex_agent ''w0_agent'' 10)]"
    by (cases batch) simp_all
  have c2: "\<exists>agent_steps m3 pre batch post.
      step ex_after_reset ?evs = Some (Inr (agent_steps, m3, [])) \<and>
      agent_steps = pre @ batch @ post \<and>
      map current_agent_info batch = [ex_agent ''w0_agent'' 0] \<and>
      map previous_agent_info batch = [Some (ex_agent ''w0_agent'' 10)]"
    by (intro exI conjI, rule s, rule sp, rule c, rule p)
  show ?thesis by (rule conjI[OF g conjI[OF conjunct1[OF t] c2]])
qed

section \<open>Properties of the system of coordinator and workers\<close>

subsection \<open>What the manager's operations do to the flags and the connections\<close>

lemma flags_agree_frame:
  assumes inv: "flags_agree m q"
    and len: "length (env_workers m') = length (env_workers m)"
    and same: "\<And>i. i < length (env_workers m) \<Longrightarrow>
            waiting (env_workers m' ! i) = waiting (env_workers m ! i) \<and>
            filter is_step_cmd (conn (env_workers m' ! i))
              = filter is_step_cmd (conn (env_workers m ! i))"
  shows "flags_agree m' q"
  unfolding flags_agree_def
proof (intro allI impI)
  fix i assume "i < length (env_workers m')"
  then have i: "i < length (env_workers m)" using len by simp
  from inv i have "length (filter is_step_cmd (conn (env_workers m ! i)))
        + length (filter (\<lambda>r. resp_worker_id r = i) q)
        = (if waiting (env_workers m ! i) then 1 else 0)"
    by (simp add: flags_agree_def)
  with same[OF i] show "length (filter is_step_cmd (conn (env_workers m' ! i)))
        + length (filter (\<lambda>r. resp_worker_id r = i) q)
        = (if waiting (env_workers m' ! i) then 1 else 0)"
    by simp
qed

lemma flags_agree_get:
  assumes inv: "flags_agree m (r # q)"
    and k: "resp_worker_id r < length (env_workers m)"
  shows "flags_agree (clear_waiting m (resp_worker_id r)) q"
  unfolding flags_agree_def
proof (intro allI impI)
  let ?k = "resp_worker_id r"
  let ?m = "clear_waiting m ?k"
  fix i assume "i < length (env_workers ?m)"
  then have i: "i < length (env_workers m)" by simp
  from inv i have a: "length (filter is_step_cmd (conn (env_workers m ! i)))
        + length (filter (\<lambda>r. resp_worker_id r = i) (r # q))
        = (if waiting (env_workers m ! i) then 1 else 0)"
    by (simp add: flags_agree_def)
  show "length (filter is_step_cmd (conn (env_workers ?m ! i)))
        + length (filter (\<lambda>r. resp_worker_id r = i) q)
        = (if waiting (env_workers ?m ! i) then 1 else 0)"
  proof (cases "i = ?k")
    case True
    with a i show ?thesis by (simp add: clear_waiting_def split: if_splits)
  next
    case False
    with a i show ?thesis by (simp add: clear_waiting_def)
  qed
qed

lemma flags_agree_gets:
  "flags_agree m (xs @ q) \<Longrightarrow> \<forall>r\<in>set xs. resp_worker_id r < length (env_workers m) \<Longrightarrow>
   flags_agree (foldl clear_waiting m (map resp_worker_id xs)) q"
proof (induction xs arbitrary: m)
  case Nil
  then show ?case by simp
next
  case (Cons r xs)
  from Cons.prems have a: "flags_agree (clear_waiting m (resp_worker_id r)) (xs @ q)"
    using flags_agree_get[of m r "xs @ q"] by simp
  from Cons.prems have b: "\<forall>x\<in>set xs. resp_worker_id x
        < length (env_workers (clear_waiting m (resp_worker_id r)))"
    by simp
  from Cons.IH[OF a b] show ?case by simp
qed

lemma flags_agree_dispatch:
  assumes inv: "flags_agree m q"
    and d: "dispatched idxs (env_workers m) (env_workers m')"
  shows "flags_agree m' q"
  unfolding flags_agree_def
proof (intro allI impI)
  fix i assume "i < length (env_workers m')"
  then have i: "i < length (env_workers m)" using d by (simp add: dispatched_def)
  from d i obtain a where
    w: "waiting (env_workers m' ! i) = (waiting (env_workers m ! i) \<or> i \<in> set idxs)"
    and c: "conn (env_workers m' ! i) = conn (env_workers m ! i) @
               (if i \<in> set idxs \<and> \<not> waiting (env_workers m ! i) then [StepCmd a] else [])"
    by (auto simp: dispatched_def)
  from inv i have "length (filter is_step_cmd (conn (env_workers m ! i)))
        + length (filter (\<lambda>r. resp_worker_id r = i) q)
        = (if waiting (env_workers m ! i) then 1 else 0)"
    by (simp add: flags_agree_def)
  with w c show "length (filter is_step_cmd (conn (env_workers m' ! i)))
        + length (filter (\<lambda>r. resp_worker_id r = i) q)
        = (if waiting (env_workers m' ! i) then 1 else 0)"
    by simp
qed

lemma flags_agree_queue_steps_loop:
  assumes inv: "flags_agree m q" and k: "k \<le> length (env_workers m)"
    and l: "queue_steps_loop [0..<k] m = Inr m'"
  shows "flags_agree m' q"
proof -
  have "distinct [0..<k]" "\<forall>i\<in>set [0..<k]. i < length (env_workers m)"
    using k by simp_all
  with queue_steps_loop_dispatched[OF l]
  have "dispatched [0..<k] (env_workers m) (env_workers m')" by blast
  with inv show ?thesis by (rule flags_agree_dispatch)
qed

lemma flags_agree_poll:
  assumes p: "poll_steps m [] {} (map Some q @ [None]) = Some (Inr (m2, ws, rest))"
    and inv: "flags_agree m q"
  shows "flags_agree m2 (arrived rest)"
proof -
  from poll_steps_result[OF p] obtain pre where
    e: "map Some q @ [None] = pre @ rest"
    and m2: "m2 = foldl clear_waiting m (map resp_worker_id (arrived pre))"
    and r: "\<forall>r\<in>set (arrived pre). resp_worker_id r < length (env_workers m)"
    by blast
  have "arrived (map Some q @ [None]) = q" by (simp add: arrived_append arrived_map_Some)
  with e have "q = arrived pre @ arrived rest" by (simp add: arrived_append)
  with inv have "flags_agree m (arrived pre @ arrived rest)" by simp
  from flags_agree_gets[OF this r] m2 show ?thesis by simp
qed

lemma postprocess_agents_frame:
  assumes "postprocess_agents w acts infos acc = Inr (w', steps)"
  shows "keys_of w' = keys_of w \<and> waiting w' = waiting w \<and> conn w' = conn w \<and>
         worker_id w' = worker_id w"
proof (cases "\<forall>info\<in>set infos. info_id info \<in> keys_of w")
  case True
  from postprocess_agents_ok[OF True, of acts acc] assms show ?thesis by auto
next
  case False
  then have "postprocess_agents w acts infos acc = Inl KeyError"
    using postprocess_agents_fail by blast
  with assms show ?thesis by simp
qed

lemma postprocess_loop_frame:
  "postprocess_loop m rs acc = Inr (steps, m') \<Longrightarrow> same_control m m'"
proof (induction rs arbitrary: m acc)
  case Nil
  then show ?case by (simp add: same_control_refl)
next
  case (Cons r rs)
  let ?w = "env_workers m ! resp_worker_id r"
  from Cons.prems have inr: "resp_worker_id r < length (env_workers m)"
    by (auto split: if_splits)
  with Cons.prems obtain w' acc' where
    a: "postprocess_agents ?w (previous_agent_action_infos m) (all_agent_info r) acc = Inr (w', acc')"
    and l: "postprocess_loop (m\<lparr>env_workers := (env_workers m)[resp_worker_id r := w']\<rparr>) rs acc'
              = Inr (steps, m')"
    by (auto split: sum.splits)
  note f = postprocess_agents_frame[OF a]
  have "same_control m (m\<lparr>env_workers := (env_workers m)[resp_worker_id r := w']\<rparr>)"
    using inr f by (simp add: same_control_def map_update_same)
  with Cons.IH[OF l] show ?case using same_control_trans by blast
qed

lemma flags_agree_postprocess:
  assumes p: "postprocess_steps m rs = Inr (agent_steps, m')" and inv: "flags_agree m q"
  shows "flags_agree m' q"
proof -
  from p have sc: "same_control m m'"
    unfolding postprocess_steps_def by (rule postprocess_loop_frame)
  show ?thesis
  proof (rule flags_agree_frame[OF inv same_control_length[OF sc]])
    fix i assume "i < length (env_workers m)"
    from same_control_nth[OF sc this]
    show "waiting (env_workers m' ! i) = waiting (env_workers m ! i) \<and>
            filter is_step_cmd (conn (env_workers m' ! i))
              = filter is_step_cmd (conn (env_workers m ! i))"
      by simp
  qed
qed

lemma step_phases:
  "step m evs = Some (Inr (agent_steps, m3, rest)) \<Longrightarrow>
   \<exists>m1 m2 ws. queue_steps m = Inr m1 \<and> poll_steps m1 [] {} evs = Some (Inr (m2, ws, rest)) \<and>
              postprocess_steps m2 ws = Inr (agent_steps, m3)"
  by (auto simp: step_def split: sum.splits option.splits prod.splits)

lemma flags_agree_step:
  assumes s: "step m (map Some q @ [None]) = Some (Inr (agent_steps, m3, rest))"
    and inv: "flags_agree m q"
  shows "flags_agree m3 (arrived rest)"
proof -
  from step_phases[OF s] obtain m1 m2 ws where
    a: "queue_steps m = Inr m1"
    and b: "poll_steps m1 [] {} (map Some q @ [None]) = Some (Inr (m2, ws, rest))"
    and c: "postprocess_steps m2 ws = Inr (agent_steps, m3)"
    by blast
  from a have "queue_steps_loop [0..<length (env_workers m)] m = Inr m1"
    by (simp only: queue_steps_def)
  from flags_agree_queue_steps_loop[OF inv order_refl this] have "flags_agree m1 q" .
  from flags_agree_poll[OF b this] have "flags_agree m2 (arrived rest)" .
  from flags_agree_postprocess[OF c this] show ?thesis .
qed

lemma reset_drain_result:
  "reset_drain m evs = Some (Inr (m1, rest)) \<Longrightarrow>
   \<exists>pre. evs = pre @ rest \<and>
         m1 = foldl clear_waiting m (map resp_worker_id (arrived pre)) \<and>
         (\<forall>r\<in>set (arrived pre). resp_worker_id r < length (env_workers m))"
proof (induction evs arbitrary: m)
  case Nil
  then show ?case by (simp split: if_splits)
next
  case (Cons ev evs)
  show ?case
  proof (cases "list_ex waiting (env_workers m)")
    case False
    with Cons.prems have "m1 = m \<and> rest = ev # evs"
      by (cases ev) simp_all
    then have "ev # evs = [] @ rest \<and>
         m1 = foldl clear_waiting m (map resp_worker_id (arrived [])) \<and>
         (\<forall>r\<in>set (arrived []). resp_worker_id r < length (env_workers m))"
      by simp
    then show ?thesis by blast
  next
    case True
    show ?thesis
    proof (cases ev)
      case None
      with True Cons.prems have "reset_drain m evs = Some (Inr (m1, rest))" by simp
      from Cons.IH[OF this] obtain pre where
        p: "evs = pre @ rest"
           "m1 = foldl clear_waiting m (map resp_worker_id (arrived pre))"
           "\<forall>r\<in>set (arrived pre). resp_worker_id r < length (env_workers m)"
        by blast
      then have "ev # evs = (None # pre) @ rest \<and>
         m1 = foldl clear_waiting m (map resp_worker_id (arrived (None # pre))) \<and>
         (\<forall>r\<in>set (arrived (None # pre)). resp_worker_id r < length (env_workers m))"
        using None by simp
      then show ?thesis by blast
    next
      case (Some resp)
      with True Cons.prems have inr: "resp_worker_id resp < length (env_workers m)"
        by (simp split: if_splits)
      with True Cons.prems Some have
        "reset_drain (clear_waiting m (resp_worker_id resp)) evs = Some (Inr (m1, rest))"
        by simp
      from Cons.IH[OF this] obtain pre where
        p: "evs = pre @ rest"
           "m1 = foldl clear_waiting (clear_waiting m (resp_worker_id resp))
                   (map resp_worker_id (arrived pre))"
           "\<forall>r\<in>set (arrived pre). resp_worker_id r < length (env_workers m)"
        by auto
      then have "ev # evs = (Some resp # pre) @ rest \<and>
         m1 = foldl clear_waiting m (map resp_worker_id (arrived (Some resp # pre))) \<and>
         (\<forall>r\<in>set (arrived (Some resp # pre)). resp_worker_id r < length (env_workers m))"
        using Some inr by simp
      then show ?thesis by blast
    qed
  qed
qed

lemma flags_agree_reset_drain:
  assumes d: "reset_drain m (map Some q) = Some (Inr (m1, rest))"
    and inv: "flags_agree m q"
  shows "flags_agree m1 (arrived rest)"
proof -
  from reset_drain_result[OF d] obtain pre where
    e: "map Some q = pre @ rest"
    and m1: "m1 = foldl clear_waiting m (map resp_worker_id (arrived pre))"
    and r: "\<forall>r\<in>set (arrived pre). resp_worker_id r < length (env_workers m)"
    by blast
  have "arrived (map Some q) = q" by (rule arrived_map_Some)
  with e have "q = arrived pre @ arrived rest" by (simp add: arrived_append)
  with inv have "flags_agree m (arrived pre @ arrived rest)" by simp
  from flags_agree_gets[OF this r] m1 show ?thesis by simp
qed

lemma reset_agents_frame:
  "reset_agents ew infos acc = (ew', steps) \<Longrightarrow> waiting ew' = waiting ew \<and> conn ew' = conn ew"
proof (induction infos arbitrary: ew acc)
  case Nil
  then show ?case by simp
next
  case (Cons info infos)
  let ?s = "\<lparr> previous_agent_info = None, current_agent_info = info, previous_action = None \<rparr>"
  let ?ew = "ew\<lparr>previous_agent_steps := dict_set (previous_agent_steps ew) (info_id info) ?s\<rparr>"
  from Cons.prems have "reset_agents ?ew infos (acc @ [?s]) = (ew', steps)"
    by (simp add: Let_def)
  from Cons.IH[OF this] show ?case by simp
qed

lemma reset_recv_frame:
  "reset_recv ews replies acc = Some (ews', steps) \<Longrightarrow>
   map waiting ews' = map waiting ews \<and> map conn ews' = map conn ews"
proof (induction ews arbitrary: replies acc ews' steps)
  case Nil
  then show ?case by simp
next
  case (Cons ew ews)
  from Cons.prems obtain all_agent_infos replies' where rep: "replies = all_agent_infos # replies'"
    by (cases replies) auto
  obtain ew1 steps1 where a: "reset_agents ew all_agent_infos acc = (ew1, steps1)"
    by (cases "reset_agents ew all_agent_infos acc")
  with Cons.prems rep obtain ews2 where
    r: "reset_recv ews replies' steps1 = Some (ews2, steps)" and e: "ews' = ew1 # ews2"
    by (auto split: option.splits)
  from Cons.IH[OF r] reset_agents_frame[OF a] e show ?case by simp
qed

lemma flags_agree_reset_workers:
  assumes inv: "flags_agree m1 q"
    and k: "k \<le> length (env_workers m1)"
    and sent: "sent = reset_send cmd (take k (env_workers m1)) @ drop k (env_workers m1)"
    and cmd: "\<not> is_step_cmd cmd"
    and j: "j \<le> length sent"
    and r: "reset_recv (take j sent) replies [] = Some (ews, reset_steps)"
  shows "flags_agree (m1\<lparr>env_workers := ews @ drop j sent\<rparr>) q"
proof -
  let ?ws = "env_workers m1"
  let ?ws' = "ews @ drop j sent"
  note f = reset_recv_frame[OF r]
  have w: "map waiting ?ws' = map waiting sent"
    using f by (simp add: take_map[symmetric] drop_map[symmetric])
  have c: "map conn ?ws' = map conn sent"
    using f by (simp add: take_map[symmetric] drop_map[symmetric])
  have ls: "length sent = length ?ws" using k by (simp add: sent reset_send_def)
  have len: "length ?ws' = length ?ws"
    using arg_cong[OF w, of length] ls by simp
  show ?thesis
  proof (rule flags_agree_frame[OF inv])
    show "length (env_workers (m1\<lparr>env_workers := ?ws'\<rparr>)) = length ?ws" using len by simp
  next
    fix i assume i: "i < length ?ws"
    then have i': "i < length sent" using ls by simp
    have w': "waiting (?ws' ! i) = waiting (sent ! i)" using map_eq_nth[OF w i'] .
    have c': "conn (?ws' ! i) = conn (sent ! i)" using map_eq_nth[OF c i'] .
    have sw: "waiting (sent ! i) = waiting (?ws ! i)"
      using i k by (simp add: sent reset_send_def nth_append)
    have sc: "filter is_step_cmd (conn (sent ! i)) = filter is_step_cmd (conn (?ws ! i))"
      using i k cmd by (simp add: sent reset_send_def nth_append)
    from w' c' sw sc
    show "waiting (env_workers (m1\<lparr>env_workers := ?ws'\<rparr>) ! i) = waiting (?ws ! i) \<and>
            filter is_step_cmd (conn (env_workers (m1\<lparr>env_workers := ?ws'\<rparr>) ! i))
              = filter is_step_cmd (conn (?ws ! i))"
      by simp
  qed
qed

lemma reset_phases:
  "reset m config train_mode custom evs replies = Some (Inr (reset_steps, m', rest)) \<Longrightarrow>
   \<exists>m1 ews. reset_drain m evs = Some (Inr (m1, rest)) \<and>
      reset_recv (reset_send (ResetCmd config train_mode custom) (env_workers m1)) replies []
        = Some (ews, reset_steps) \<and>
      m' = m1\<lparr>env_workers := ews\<rparr>"
  by (auto simp: reset_def split: sum.splits option.splits prod.splits)

lemma flags_agree_reset:
  assumes s: "reset m config train_mode custom (map Some q) replies
                = Some (Inr (reset_steps, m', rest))"
    and inv: "flags_agree m q"
  shows "flags_agree m' (arrived rest)"
proof -
  let ?cmd = "ResetCmd config train_mode custom"
  from reset_phases[OF s] obtain m1 ews where
    d: "reset_drain m (map Some q) = Some (Inr (m1, rest))"
    and r: "reset_recv (reset_send ?cmd (env_workers m1)) replies [] = Some (ews, reset_steps)"
    and m': "m' = m1\<lparr>env_workers := ews\<rparr>"
    by blast
  let ?sent = "reset_send ?cmd (take (length (env_workers m1)) (env_workers m1))
                 @ drop (length (env_workers m1)) (env_workers m1)"
  have e: "?sent = reset_send ?cmd (env_workers m1)" by simp
  have r': "reset_recv (take (length ?sent) ?sent) replies [] = Some (ews, reset_steps)"
    using r by simp
  from flags_agree_reset_workers[OF flags_agree_reset_drain[OF d inv] order_refl refl _ order_refl r']
  show ?thesis by (simp add: m')
qed

lemma flags_agree_send_first:
  assumes inv: "flags_agree m q" and s: "send_first cmd m = Inr m'" and cmd: "\<not> is_step_cmd cmd"
  shows "flags_agree m' q"
proof -
  from s obtain ew ews where ws: "env_workers m = ew # ews"
    and m': "m' = m\<lparr>env_workers := ew\<lparr>conn := conn ew @ [cmd]\<rparr> # ews\<rparr>"
    by (auto simp: send_first_def split: list.splits)
  show ?thesis
  proof (rule flags_agree_frame[OF inv])
    show "length (env_workers m') = length (env_workers m)" by (simp add: m' ws)
  next
    fix i assume "i < length (env_workers m)"
    show "waiting (env_workers m' ! i) = waiting (env_workers m ! i) \<and>
            filter is_step_cmd (conn (env_workers m' ! i))
              = filter is_step_cmd (conn (env_workers m ! i))"
      using cmd by (cases i) (simp_all add: m' ws)
  qed
qed

lemma flags_agree_close:
  assumes inv: "flags_agree m q"
  shows "flags_agree (close m) q"
proof (rule flags_agree_frame[OF inv])
  show "length (env_workers (close m)) = length (env_workers m)" by (simp add: close_def)
next
  fix i assume "i < length (env_workers m)"
  then show "waiting (env_workers (close m) ! i) = waiting (env_workers m ! i) \<and>
            filter is_step_cmd (conn (env_workers (close m) ! i))
              = filter is_step_cmd (conn (env_workers m ! i))"
    by (simp add: close_def)
qed

subsection \<open>What a worker does to its connection and the step queue\<close>

lemma worker_command_step:
  "worker_command env i e (StepCmd a) = Inr (e', out) \<Longrightarrow>
   \<exists>infos. out = PutStep \<lparr> resp_worker_id = i, all_agent_info = infos \<rparr>"
  by (auto split: sum.splits prod.splits if_splits)

lemma worker_command_other:
  "\<not> is_step_cmd cmd \<Longrightarrow> worker_command env i e cmd = Inr (e', out) \<Longrightarrow> put_output out q = q"
  by (cases cmd) (auto simp: put_output_def split: sum.splits prod.splits)

lemma flags_agree_worker:
  assumes inv: "flags_agree m q"
    and i: "i < length (env_workers m)"
    and c: "conn (env_workers m ! i) = cmd # cs"
    and w: "worker_command env i e cmd = Inr (e', out)"
  shows "flags_agree (m\<lparr>env_workers := (env_workers m)[i := (env_workers m ! i)\<lparr>conn := cs\<rparr>]\<rparr>)
           (put_output out q)"
  unfolding flags_agree_def
proof (intro allI impI)
  let ?m = "m\<lparr>env_workers := (env_workers m)[i := (env_workers m ! i)\<lparr>conn := cs\<rparr>]\<rparr>"
  fix j assume "j < length (env_workers ?m)"
  then have j: "j < length (env_workers m)" by simp
  from inv j have ij: "length (filter is_step_cmd (conn (env_workers m ! j)))
        + length (filter (\<lambda>r. resp_worker_id r = j) q)
        = (if waiting (env_workers m ! j) then 1 else 0)"
    by (simp add: flags_agree_def)
  show "length (filter is_step_cmd (conn (env_workers ?m ! j)))
        + length (filter (\<lambda>r. resp_worker_id r = j) (put_output out q))
        = (if waiting (env_workers ?m ! j) then 1 else 0)"
  proof (cases "is_step_cmd cmd")
    case False
    have p: "put_output out q = q" using worker_command_other[OF False w] .
    show ?thesis
    proof (cases "j = i")
      case True
      with ij False j c show ?thesis by (simp add: p)
    next
      case ne: False
      with ij j show ?thesis by (simp add: p)
    qed
  next
    case True
    then obtain a where cmd: "cmd = StepCmd a" by (cases cmd) simp_all
    from worker_command_step[OF w[unfolded cmd]] obtain infos where
      out: "out = PutStep \<lparr> resp_worker_id = i, all_agent_info = infos \<rparr>" by blast
    show ?thesis
    proof (cases "j = i")
      case True
      with ij j c show ?thesis by (simp add: cmd out put_output_def)
    next
      case ne: False
      with ij j show ?thesis by (simp add: out put_output_def)
    qed
  qed
qed

subsection \<open>The flags in every reachable state\<close>

lemma flags_agree_move:
  assumes mv: "sys_move env s s'"
    and inv: "flags_agree (manager s) (step_queue s)"
  shows "flags_agree (manager s') (step_queue s')"
  using mv
proof (cases rule: sys_move.cases)
  case (move_step agent_steps m' rest)
  from flags_agree_step[OF move_step(2) inv] show ?thesis by (simp add: move_step(1))
next
  case (move_queue_steps k m')
  from flags_agree_queue_steps_loop[OF inv move_queue_steps(2,3)]
  show ?thesis by (simp add: move_queue_steps(1))
next
  case (move_poll m' worker_steps rest)
  from flags_agree_poll[OF move_poll(2) inv] show ?thesis by (simp add: move_poll(1))
next
  case (move_get_nowait r q)
  from inv have "flags_agree (manager s) (r # q)" by (simp only: move_get_nowait(2))
  from flags_agree_get[OF this move_get_nowait(3)] show ?thesis by (simp add: move_get_nowait(1))
next
  case (move_postprocess rs agent_steps m')
  from flags_agree_postprocess[OF move_postprocess(2) inv]
  show ?thesis by (simp add: move_postprocess(1))
next
  case (move_reset config train_mode custom replies reset_steps m' rest)
  from flags_agree_reset[OF move_reset(2) inv] show ?thesis by (simp add: move_reset(1))
next
  case (move_reset_raises m1 rest k sent config train_mode custom j replies ews reset_steps)
  have c: "\<not> is_step_cmd (ResetCmd config train_mode custom)" by simp
  from flags_agree_reset_workers[OF flags_agree_reset_drain[OF move_reset_raises(2) inv]
         move_reset_raises(3,4) c move_reset_raises(5,6)]
  show ?thesis by (simp add: move_reset_raises(1))
next
  case (move_external_brains m')
  have c: "\<not> is_step_cmd ExternalBrainsCmd" by simp
  from flags_agree_send_first[OF inv move_external_brains(2)[unfolded external_brains_def] c]
  show ?thesis by (simp add: move_external_brains(1))
next
  case (move_reset_parameters m')
  have c: "\<not> is_step_cmd ResetParametersCmd" by simp
  from flags_agree_send_first[OF inv move_reset_parameters(2)[unfolded reset_parameters_def] c]
  show ?thesis by (simp add: move_reset_parameters(1))
next
  case move_close
  from flags_agree_close[OF inv] show ?thesis by (simp add: move_close(1))
next
  case (move_set_policy pols)
  from inv show ?thesis by (simp add: move_set_policy(1) flags_agree_def)
next
  case (move_worker i e cmd cs e' out)
  from flags_agree_worker[OF inv move_worker(2,5,6)] show ?thesis by (simp add: move_worker(1))
next
  case (move_worker_raises i e cmd cs x)
  from inv show ?thesis by (simp add: move_worker_raises(1))
next
  case (move_worker_interrupted i)
  from inv show ?thesis by (simp add: move_worker_interrupted(1))
qed

lemma flags_agree_reachable:
  "reachable env s \<Longrightarrow> flags_agree (manager s) (step_queue s)"
proof (induction rule: reachable.induct)
  case (reachable_init es n_env)
  show ?case by (simp add: flags_agree_def init_manager_def create_worker_def)
next
  case (reachable_move s s')
  from flags_agree_move[OF reachable_move(2) reachable_move(3)] show ?case .
qed

text \<open>
  Claim C7. In every state that the coordinator and its workers can reach by the
  operations of the manager (\<^verbatim>\<open>step\<close> and its phases, \<^verbatim>\<open>reset\<close>, the queries,
  \<^verbatim>\<open>close\<close>, \<^verbatim>\<open>set_policy\<close>) and the moves of the workers (which may raise or be
  interrupted), a worker's \<open>waiting\<close> flag is set exactly when one step command sent to
  it has not been consumed (it is on the worker's connection, not answered, or its result
  is on the step queue); there is never more than one; and \<^verbatim>\<open>_queue_steps\<close> sends a step
  command to a worker only when its flag is not set.
\<close>

theorem one_step_in_flight:
  assumes "reachable env s" and "i < length (env_workers (manager s))"
  shows "(waiting (env_workers (manager s) ! i) \<longleftrightarrow> steps_in_flight s i = 1) \<and>
         steps_in_flight s i \<le> 1 \<and>
         (\<forall>m'. queue_steps (manager s) = Inr m' \<longrightarrow>
            waiting (env_workers m' ! i) \<and>
            (\<exists>a. conn (env_workers m' ! i) =
                   conn (env_workers (manager s) ! i) @
                   (if waiting (env_workers (manager s) ! i) then [] else [StepCmd a])))"
proof -
  from flags_agree_reachable[OF assms(1)] assms(2)
  have f: "steps_in_flight s i = (if waiting (env_workers (manager s) ! i) then 1 else 0)"
    by (simp add: flags_agree_def steps_in_flight_def)
  have d: "\<forall>m'. queue_steps (manager s) = Inr m' \<longrightarrow>
            waiting (env_workers m' ! i) \<and>
            (\<exists>a. conn (env_workers m' ! i) =
                   conn (env_workers (manager s) ! i) @
                   (if waiting (env_workers (manager s) ! i) then [] else [StepCmd a]))"
  proof (intro allI impI)
    fix m' assume q: "queue_steps (manager s) = Inr m'"
    from queue_steps_dispatched[OF q] assms(2)
    show "waiting (env_workers m' ! i) \<and>
            (\<exists>a. conn (env_workers m' ! i) =
                   conn (env_workers (manager s) ! i) @
                   (if waiting (env_workers (manager s) ! i) then [] else [StepCmd a]))"
      by (auto simp: dispatched_def)
  qed
  from f d show ?thesis by (simp split: if_splits)
qed

lemma Some_Inr_the:
  "map_option isl x = Some False \<Longrightarrow>
   x = Some (Inr (fst (projr (the x)), fst (snd (projr (the x))), snd (snd (projr (the x)))))"
  by (cases x) (auto simp: Inr_projr[symmetric])

theorem one_step_in_flight_witness:
  "reachable ex_env ex_sys3 \<and>
   \<not> waiting (env_workers (manager ex_sys3) ! 0) \<and>
   steps_in_flight ex_sys3 0 \<noteq> 1 \<and>
   waiting (env_workers (manager ex_sys3) ! 1) \<and>
   steps_in_flight ex_sys3 1 = 1"
proof -
  have r0: "reachable ex_env ex_sys0"
    unfolding ex_sys0_def by (rule reachable_init) simp
  have "\<not> isl (queue_steps (manager ex_sys0))" by code_simp
  then have q: "queue_steps (manager ex_sys0) = Inr (projr (queue_steps (manager ex_sys0)))"
    by (rule Inr_projr)
  have r1: "reachable ex_env ex_sys1"
  proof -
    have q': "queue_steps_loop [0..<length (env_workers (manager ex_sys0))] (manager ex_sys0)
                = Inr (projr (queue_steps (manager ex_sys0)))"
      by (rule trans[OF queue_steps_def[symmetric] q])
    show ?thesis
      unfolding ex_sys1_def by (rule reachable_move[OF r0 move_queue_steps[OF order_refl q']])
  qed
  have r2: "reachable ex_env ex_sys2"
  proof -
    let ?w = "env_workers (manager ex_sys1) ! 0"
    let ?res = "worker_command ex_env 0 (False, 0) (hd (conn ?w))"
    have a: "0 < length (env_workers (manager ex_sys1))" by code_simp
    have b: "0 < length (envs ex_sys1)" by code_simp
    have c: "envs ex_sys1 ! 0 = Some (False, 0)" by code_simp
    have "0 < length (conn ?w)" by code_simp
    then have d: "conn ?w = hd (conn ?w) # tl (conn ?w)" by simp
    have "\<not> isl ?res" by code_simp
    then have "?res = Inr (projr ?res)" by (rule Inr_projr)
    then have e: "?res = Inr (fst (projr ?res), snd (projr ?res))" by simp
    show ?thesis
      unfolding ex_sys2_def Let_def by (rule reachable_move[OF r1 move_worker[OF a b c d e]])
  qed
  have r3: "reachable ex_env ex_sys3"
  proof -
    let ?p = "poll_steps (manager ex_sys2) [] {} (map Some (step_queue ex_sys2) @ [None])"
    have "map_option isl ?p = Some False" by code_simp
    then have p: "?p = Some (Inr (fst (projr (the ?p)), fst (snd (projr (the ?p))),
                                   snd (snd (projr (the ?p)))))"
      by (rule Some_Inr_the)
    show ?thesis
      unfolding ex_sys3_def Let_def by (rule reachable_move[OF r2 move_poll[OF p]])
  qed
  have l0: "0 < length (env_workers (manager ex_sys3))" by code_simp
  have l1: "1 < length (env_workers (manager ex_sys3))" by code_simp
  have w0: "\<not> waiting (env_workers (manager ex_sys3) ! 0)" by code_simp
  have w1: "waiting (env_workers (manager ex_sys3) ! 1)" by code_simp
  note t0 = one_step_in_flight[OF r3 l0]
  note t1 = one_step_in_flight[OF r3 l1]
  have f0: "steps_in_flight ex_sys3 0 \<noteq> 1"
  proof
    assume "steps_in_flight ex_sys3 0 = 1"
    from iffD2[OF conjunct1[OF t0] this] w0 show False by (rule notE[rotated])
  qed
  have f1: "steps_in_flight ex_sys3 1 = 1" using iffD1[OF conjunct1[OF t1] w1] .
  show ?thesis by (rule conjI[OF r3 conjI[OF w0 conjI[OF f0 conjI[OF w1 f1]]]])
qed

end
